theory Spec2Isabelle
  imports Complex_Main "HOL-Library.Multiset"
begin

section \<open>Data model\<close>

text \<open>
  The module \<^verbatim>\<open>src/data/code2ast.py\<close> works on networkx graphs whose nodes are integers.
  A graph is modelled by its node dictionary and its edge dictionary, both in insertion
  order (networkx keeps insertion order, and the order decides which element a stable
  sort or a first match returns).  A \<^verbatim>\<open>DiGraph\<close> reads an edge \<open>((u, v), d)\<close> as directed
  from \<open>u\<close> to \<open>v\<close>; a \<^verbatim>\<open>Graph\<close> reads it in both directions.
\<close>

datatype py_error =
    IndexError | KeyError | AssertionError | ZeroDivisionError | NodeNotFound | NetworkXNoPath

text \<open>The attribute dictionary that \<^verbatim>\<open>getGraphFromTree\<close> gives every node.\<close>

record attrs =
  type :: string
  is_terminal :: bool
  start :: int
  end_ :: int

text \<open>The class \<^verbatim>\<open>ComplexEdgeLabels\<close>.\<close>

record ComplexEdgeLabels =
  non_terminals :: "string list"
  depths :: "int list"
  special_index :: int

text \<open>
  The attribute dictionary of an edge of a \<^verbatim>\<open>DiGraph\<close>: the key \<^verbatim>\<open>label\<close> set by
  \<^verbatim>\<open>enrichAstWithDeps\<close>, the keys \<^verbatim>\<open>complex_edge\<close> and \<^verbatim>\<open>complex_edge_str\<close> set by
  \<^verbatim>\<open>labelDepTree\<close>.  An absent key is \<open>None\<close>.
\<close>

record edge_data =
  label :: "string option"
  complex_edge :: "ComplexEdgeLabels option"
  complex_edge_str :: "string option"

record ('a, 'e) nxgraph =
  nodes :: "(nat \<times> 'a) list"
  edges :: "((nat \<times> nat) \<times> 'e) list"

type_synonym digraph = "(attrs, edge_data) nxgraph"

definition no_data :: edge_data where
  "no_data = \<lparr>label = None, complex_edge = None, complex_edge_str = None\<rparr>"

definition empty_graph :: "('a, 'e) nxgraph" where
  "empty_graph = \<lparr>nodes = [], edges = []\<rparr>"

definition node_ids :: "('a, 'e) nxgraph \<Rightarrow> nat list" where
  "node_ids G = map fst (nodes G)"

text \<open>\<^verbatim>\<open>G.nodes[n]\<close>: the attributes of a node; a missing node is a \<^verbatim>\<open>KeyError\<close>.\<close>

definition node_attrs :: "('a, 'e) nxgraph \<Rightarrow> nat \<Rightarrow> 'a option" where
  "node_attrs G n = map_of (nodes G) n"

text \<open>
  \<^verbatim>\<open>G.add_node(n, **a)\<close>: a new node goes to the end of the node dictionary, an existing
  one keeps its place and takes the new attributes.
\<close>

definition add_node :: "('a, 'e) nxgraph \<Rightarrow> nat \<Rightarrow> 'a \<Rightarrow> ('a, 'e) nxgraph" where
  "add_node G n a =
     (if n \<in> set (node_ids G)
      then G\<lparr>nodes := map (\<lambda>(m, b). if m = n then (m, a) else (m, b)) (nodes G)\<rparr>
      else G\<lparr>nodes := nodes G @ [(n, a)]\<rparr>)"

text \<open>
  \<^verbatim>\<open>G.add_edge(u, v, **d)\<close> on a \<^verbatim>\<open>DiGraph\<close>, for endpoints that are nodes already (every
  call of the module is of this kind): a new edge goes to the end, an existing edge has
  its attributes updated by \<open>upd\<close>.
\<close>

definition add_edge ::
  "('a, 'e) nxgraph \<Rightarrow> nat \<Rightarrow> nat \<Rightarrow> 'e \<Rightarrow> ('e \<Rightarrow> 'e) \<Rightarrow> ('a, 'e) nxgraph" where
  "add_edge G u v d upd =
     (if (u, v) \<in> set (map fst (edges G))
      then G\<lparr>edges := map (\<lambda>(e, c). if e = (u, v) then (e, upd c) else (e, c)) (edges G)\<rparr>
      else G\<lparr>edges := edges G @ [((u, v), d)]\<rparr>)"

text \<open>\<^verbatim>\<open>T.has_edge(s, t)\<close> on an undirected \<^verbatim>\<open>Graph\<close>.\<close>

definition has_edge :: "('a, 'e) nxgraph \<Rightarrow> nat \<Rightarrow> nat \<Rightarrow> bool" where
  "has_edge T s t \<longleftrightarrow> (s, t) \<in> set (map fst (edges T)) \<or> (t, s) \<in> set (map fst (edges T))"

section \<open>Tree builder\<close>

text \<open>A node of the parser's tree: type, byte span, children.\<close>

datatype ts_node =
  TSNode (ts_type: string) (start_byte: int) (end_byte: int) (children: "ts_node list")

text \<open>\<^verbatim>\<open>getId\<close>: a fresh identifier.\<close>

definition getId :: "('a, 'e) nxgraph \<Rightarrow> nat" where
  "getId G = (if nodes G = [] then 0 else Max (set (node_ids G)) + 1)"

text \<open>
  \<^verbatim>\<open>getGraphFromTree\<close>: the recursion over the children, the graph passed along as
  state.  The second function is the \<^verbatim>\<open>for child in node.children\<close> loop.
\<close>

fun getGraphFromTree :: "ts_node \<Rightarrow> digraph \<Rightarrow> nat \<Rightarrow> digraph"
  and getGraphFromTree_loop :: "ts_node list \<Rightarrow> digraph \<Rightarrow> nat \<Rightarrow> digraph" where
  "getGraphFromTree (TSNode ty s e cs) G id_father = getGraphFromTree_loop cs G id_father"
| "getGraphFromTree_loop [] G id_father = G"
| "getGraphFromTree_loop (child # rest) G id_father =
     (let is_terminal_child = (children child = []);
          id_child = getId G;
          G1 = add_node G id_child
                 \<lparr>type = ts_type child, is_terminal = is_terminal_child,
                  start = start_byte child, end_ = end_byte child\<rparr>;
          G2 = add_edge G1 id_father id_child no_data id;
          G3 = getGraphFromTree child G2 id_child
      in getGraphFromTree_loop rest G3 id_father)"

text \<open>
  \<^verbatim>\<open>code2ast\<close>.  The comment strippers of \<^verbatim>\<open>utils\<close> and the parser are collaborators
  outside the module and are parameters here.  The two branches build the graph in the
  same way; any other \<open>lang\<close> falls off the end of the function, which returns Python's
  \<^verbatim>\<open>None\<close>.
\<close>

definition build_graph :: "ts_node \<Rightarrow> digraph" where
  "build_graph root_node =
     getGraphFromTree root_node
       (add_node empty_graph 0
          \<lparr>type = ts_type root_node, is_terminal = False,
           start = start_byte root_node, end_ = end_byte root_node\<rparr>) 0"

definition code2ast ::
  "(string \<Rightarrow> string) \<Rightarrow> (string \<Rightarrow> string) \<Rightarrow> string \<Rightarrow> (string \<Rightarrow> ts_node) \<Rightarrow> string
     \<Rightarrow> (digraph \<times> string) option" where
  "code2ast remove_comments_and_docstrings_python remove_comments_and_docstrings_java_js
       code parser lang =
     (if lang = ''python'' then
        (let code1 = remove_comments_and_docstrings_python code
         in Some (build_graph (parser code1), code1))
      else if lang = ''javascript'' then
        (let code1 = remove_comments_and_docstrings_java_js code
         in Some (build_graph (parser code1), code1))
      else None)"

section \<open>Tree comparison\<close>

text \<open>
  \<^verbatim>\<open>getUAS\<close>.  The two \<^verbatim>\<open>assert\<close> statements raise \<^verbatim>\<open>AssertionError\<close>; the loop counts
  the edges of the prediction that the true tree has; the final division raises
  \<^verbatim>\<open>ZeroDivisionError\<close> when the prediction has no edge.  The quotient of the two floats
  is modelled by the quotient of reals.
\<close>

definition uas_loop :: "('a, 'e) nxgraph \<Rightarrow> ((nat \<times> nat) \<times> 'f) list \<Rightarrow> nat \<times> nat" where
  "uas_loop T_true es =
     fold (\<lambda>((s, t), _) (cnt, i). (if has_edge T_true s t then cnt + 1 else cnt, i + 1))
       es (0, 0)"

definition getUAS :: "('a, 'e) nxgraph \<Rightarrow> ('b, 'f) nxgraph \<Rightarrow> py_error + real" where
  "getUAS T_true T_pred =
     (if length (nodes T_true) \<noteq> length (nodes T_pred) then Inl AssertionError
      else if length (edges T_true) \<noteq> length (edges T_pred) then Inl AssertionError
      else (case uas_loop T_true (edges T_pred) of (cnt, i) \<Rightarrow>
              if i = 0 then Inl ZeroDivisionError else Inr (real cnt / real i)))"

section \<open>Graph traversal\<close>

definition attr_of :: "('a, 'e) nxgraph \<Rightarrow> nat \<Rightarrow> py_error + 'a" where
  "attr_of G n = (case node_attrs G n of None \<Rightarrow> Inl KeyError | Some a \<Rightarrow> Inr a)"

fun map_err :: "('a \<Rightarrow> py_error + 'b) \<Rightarrow> 'a list \<Rightarrow> py_error + 'b list" where
  "map_err f [] = Inr []"
| "map_err f (x # xs) =
     (case f x of Inl e \<Rightarrow> Inl e
      | Inr y \<Rightarrow> (case map_err f xs of Inl e \<Rightarrow> Inl e | Inr ys \<Rightarrow> Inr (y # ys)))"

definition in_edges :: "('a, 'e) nxgraph \<Rightarrow> nat \<Rightarrow> (nat \<times> nat) list" where
  "in_edges G n = filter (\<lambda>(u, v). v = n) (map fst (edges G))"

definition successors :: "('a, 'e) nxgraph \<Rightarrow> nat \<Rightarrow> nat list" where
  "successors G u = map snd (filter (\<lambda>(a, b). a = u) (map fst (edges G)))"

definition neighbors :: "('a, 'e) nxgraph \<Rightarrow> nat \<Rightarrow> nat list" where
  "neighbors G v =
     concat (map (\<lambda>(a, b). if a = v then [b] else if b = v then [a] else []) (map fst (edges G)))"

fun new_nodes :: "nat list \<Rightarrow> nat list \<Rightarrow> nat list" where
  "new_nodes seen [] = []"
| "new_nodes seen (w # ws) =
     (if w \<in> set seen then new_nodes seen ws else w # new_nodes (seen @ [w]) ws)"

lemma set_new_nodes: "set (new_nodes seen ws) = set ws - set seen"
  by (induction seen ws rule: new_nodes.induct) auto

function bfs_levels :: "('a, 'e) nxgraph \<Rightarrow> nat list \<Rightarrow> nat list \<Rightarrow> nat list" where
  "bfs_levels G seen thislevel =
     (if thislevel = [] then []
      else (let nextlevel = new_nodes seen (concat (map (successors G) thislevel))
            in nextlevel @ bfs_levels G (seen @ nextlevel) nextlevel))"
  by pat_completeness auto

lemma set_successors: "set (successors G u) = {v. (u, v) \<in> set (map fst (edges G))}"
  by (force simp: successors_def)

termination bfs_levels
proof (relation "measures [\<lambda>(G, seen, lvl). card (snd ` set (map fst (edges G)) - set seen),
                           \<lambda>(G, seen, lvl). length lvl]", goal_cases)
  case 1
  then show ?case by simp
next
  case (2 G seen thislevel nextlevel)
  let ?V = "snd ` set (map fst (edges G))"
  have sub: "set nextlevel \<subseteq> ?V - set seen"
    using 2(2) by (force simp: set_new_nodes set_successors)
  show ?case
  proof (cases "nextlevel = []")
    case True
    with 2(1) show ?thesis by simp
  next
    case False
    then obtain w where w: "w \<in> set nextlevel" by (cases nextlevel) auto
    have "?V - set (seen @ nextlevel) \<subset> ?V - set seen"
      using sub w by auto
    then have "card (?V - set (seen @ nextlevel)) < card (?V - set seen)"
      by (intro psubset_card_mono) auto
    then show ?thesis by simp
  qed
qed

definition single_source_shortest_path_length ::
  "('a, 'e) nxgraph \<Rightarrow> nat \<Rightarrow> py_error + nat list" where
  "single_source_shortest_path_length G source =
     (if source \<in> set (node_ids G) then Inr (source # bfs_levels G [source] [source])
      else Inl NodeNotFound)"

fun extend_paths ::
  "('a, 'e) nxgraph \<Rightarrow> nat list \<Rightarrow> nat list list \<Rightarrow> nat list \<times> nat list list" where
  "extend_paths G seen [] = (seen, [])"
| "extend_paths G seen (p # ps) =
     (let new = new_nodes seen (neighbors G (hd p));
          r = extend_paths G (seen @ new) ps
      in (fst r, map (\<lambda>w. w # p) new @ snd r))"

lemma extend_paths_seen:
  "fst (extend_paths G seen fr) = seen @ map hd (snd (extend_paths G seen fr))"
  by (induction fr arbitrary: seen) (auto simp: Let_def comp_def)

lemma extend_paths_new:
  "hd ` set (snd (extend_paths G seen fr))
     = (\<Union>p\<in>set fr. set (neighbors G (hd p))) - set seen"
  by (induction fr arbitrary: seen) (auto simp: Let_def set_new_nodes image_Un image_image)

lemma set_neighbors:
  "set (neighbors G v)
     = {w. (v, w) \<in> set (map fst (edges G)) \<or> (w, v) \<in> set (map fst (edges G))}"
proof -
  have "set (concat (map (\<lambda>(a, b). if a = v then [b] else if b = v then [a] else []) es))
          = {w. (v, w) \<in> set es \<or> (w, v) \<in> set es}" for es :: "(nat \<times> nat) list"
    by (induction es) (auto split: if_splits)
  then show ?thesis unfolding neighbors_def by blast
qed

definition endpoints :: "('a, 'e) nxgraph \<Rightarrow> nat set" where
  "endpoints G = fst ` set (map fst (edges G)) \<union> snd ` set (map fst (edges G))"

lemma neighbors_endpoints: "set (neighbors G v) \<subseteq> endpoints G"
  by (force simp: set_neighbors endpoints_def)

function sp_levels ::
  "('a, 'e) nxgraph \<Rightarrow> nat \<Rightarrow> nat list \<Rightarrow> nat list list \<Rightarrow> nat list option" where
  "sp_levels G target seen frontier =
     (case find (\<lambda>p. hd p = target) frontier of Some p \<Rightarrow> Some (rev p)
      | None \<Rightarrow>
          if frontier = [] then None
          else (let r = extend_paths G seen frontier
                in sp_levels G target (fst r) (snd r)))"
  by pat_completeness auto
termination
proof (relation "measures [\<lambda>(G, t, seen, fr). card (endpoints G - set seen),
                           \<lambda>(G, t, seen, fr). length fr]", goal_cases)
  case 1
  then show ?case by simp
next
  case (2 G target seen frontier r)
  define nxt where "nxt = snd (extend_paths G seen frontier)"
  have s1: "fst r = seen @ map hd nxt" and r2: "snd r = nxt"
    using 2(3) extend_paths_seen[of G seen frontier] by (simp_all add: nxt_def)
  have new: "hd ` set nxt = (\<Union>p\<in>set frontier. set (neighbors G (hd p))) - set seen"
    unfolding nxt_def by (rule extend_paths_new)
  show ?case
  proof (cases "nxt = []")
    case True
    with s1 r2 2(2) show ?thesis by (simp add: case_prod_beta)
  next
    case False
    then obtain q qs where nx: "nxt = q # qs" by (cases nxt) auto
    then have "hd q \<in> hd ` set nxt" by simp
    with new have hq: "hd q \<in> endpoints G" "hd q \<notin> set seen"
      using neighbors_endpoints by fastforce+
    have "hd q \<in> set (fst r)" using s1 nx by simp
    with hq have "endpoints G - set (fst r) \<subset> endpoints G - set seen"
      using s1 by auto
    moreover have "finite (endpoints G)" by (simp add: endpoints_def)
    ultimately have "card (endpoints G - set (fst r)) < card (endpoints G - set seen)"
      by (intro psubset_card_mono) auto
    then show ?thesis by (simp add: case_prod_beta)
  qed
qed

definition shortest_path :: "('a, 'e) nxgraph \<Rightarrow> nat \<Rightarrow> nat \<Rightarrow> py_error + nat list" where
  "shortest_path G source target =
     (if source \<notin> set (node_ids G) \<or> target \<notin> set (node_ids G) then Inl NodeNotFound
      else (case sp_levels G target [source] [[source]] of None \<Rightarrow> Inl NetworkXNoPath
            | Some p \<Rightarrow> Inr p))"


section \<open>Head selection\<close>

definition getCandidate :: "digraph \<Rightarrow> nat \<Rightarrow> int \<Rightarrow> py_error + nat option" where
  "getCandidate G level start0 =
     (case single_source_shortest_path_length G level of Inl e \<Rightarrow> Inl e
      | Inr ns \<Rightarrow>
     (case map_err (\<lambda>n. case attr_of G n of Inl e \<Rightarrow> Inl e | Inr a \<Rightarrow> Inr (n, a)) ns of
        Inl e \<Rightarrow> Inl e
      | Inr nas \<Rightarrow>
        (let nodes1 = filter (\<lambda>(n, a). is_terminal a) nas;
             nodes2 = filter (\<lambda>(n, a). start a < start0) nodes1
         in if nodes2 = [] then Inr None
            else Inr (Some (fst (hd (sort_key (\<lambda>(n, a). start a) nodes2)))))))"

partial_function (option) selectHead_loop ::
  "digraph \<Rightarrow> nat \<Rightarrow> nat \<Rightarrow> (py_error + nat) option" where
  "selectHead_loop G n father =
     (case attr_of G n of Inl e \<Rightarrow> Some (Inl e)
      | Inr a \<Rightarrow>
     (case getCandidate G father (start a) of Inl e \<Rightarrow> Some (Inl e)
      | Inr (Some cand) \<Rightarrow> Some (Inr cand)
      | Inr None \<Rightarrow>
         (case in_edges G father of [] \<Rightarrow> Some (Inl IndexError)
          | (u, v) # _ \<Rightarrow> selectHead_loop G n u)))"

declare selectHead_loop.simps [code]

definition selectHead :: "digraph \<Rightarrow> nat \<Rightarrow> (py_error + nat) option" where
  "selectHead G n =
     (case in_edges G n of [] \<Rightarrow> Some (Inl IndexError)
      | (u, v) # _ \<Rightarrow> selectHead_loop G n u)"

definition getRoot :: "(attrs, 'e) nxgraph \<Rightarrow> py_error + nat" where
  "getRoot G =
     (let nodes1 = filter (\<lambda>(n, a). is_terminal a) (nodes G);
          nodes2 = sort_key (\<lambda>(n, a). start a) nodes1
      in case nodes2 of [] \<Rightarrow> Inl IndexError | (n, a) # _ \<Rightarrow> Inr n)"

section \<open>Dependency projection\<close>

definition dependency_data :: edge_data where
  "dependency_data = \<lparr>label = Some ''dependency'', complex_edge = None, complex_edge_str = None\<rparr>"

definition other_terminals :: "(attrs, 'e) nxgraph \<Rightarrow> nat \<Rightarrow> nat list" where
  "other_terminals G root0 = map fst (filter (\<lambda>(n, a). root0 \<noteq> n \<and> is_terminal a) (nodes G))"

fun enrich_loop :: "digraph \<Rightarrow> nat list \<Rightarrow> (py_error + digraph) option" where
  "enrich_loop G [] = Some (Inr G)"
| "enrich_loop G (n # ns) =
     (case selectHead G n of None \<Rightarrow> None
      | Some (Inl e) \<Rightarrow> Some (Inl e)
      | Some (Inr h) \<Rightarrow>
          enrich_loop (add_edge G h n dependency_data (\<lambda>d. d\<lparr>label := Some ''dependency''\<rparr>)) ns)"

definition enrichAstWithDeps :: "digraph \<Rightarrow> (py_error + digraph) option" where
  "enrichAstWithDeps G =
     (case getRoot G of Inl e \<Rightarrow> Some (Inl e)
      | Inr r \<Rightarrow> enrich_loop G (other_terminals G r))"

definition filter_edge :: "edge_data \<Rightarrow> bool" where
  "filter_edge d = (case label d of None \<Rightarrow> True | Some l \<Rightarrow> l \<noteq> [])"

definition getDependencyTree :: "digraph \<Rightarrow> digraph" where
  "getDependencyTree G =
     (let keep = filter (\<lambda>(n, a). is_terminal a) (nodes G);
          ids = map fst keep
      in \<lparr>nodes = keep,
          edges = concat (map (\<lambda>u. filter (\<lambda>((a, b), d). a = u \<and> b \<in> set ids \<and> filter_edge d)
                                      (edges G)) ids)\<rparr>)"

definition getHeadDepTree :: "('a, 'e) nxgraph \<Rightarrow> nat \<Rightarrow> py_error + nat" where
  "getHeadDepTree T n = (case in_edges T n of [] \<Rightarrow> Inl IndexError | (u, v) # _ \<Rightarrow> Inr u)"

section \<open>Edge encoding\<close>

definition inner :: "'a list \<Rightarrow> 'a list" where
  "inner p = butlast (tl p)"

definition getDepth :: "('a, 'e) nxgraph \<Rightarrow> nat \<Rightarrow> nat \<Rightarrow> py_error + int" where
  "getDepth G n root0 =
     (case shortest_path G n root0 of Inl e \<Rightarrow> Inl e | Inr p \<Rightarrow> Inr (int (length (inner p))))"

fun str_nat :: "nat \<Rightarrow> string" where
  "str_nat n = (if n < 10 then [char_of (48 + n)] else str_nat (n div 10) @ [char_of (48 + n mod 10)])"

definition str_int :: "int \<Rightarrow> string" where
  "str_int i = (if i < 0 then CHR ''-'' # str_nat (nat (- i)) else str_nat (nat i))"

fun join :: "string \<Rightarrow> string list \<Rightarrow> string" where
  "join sep [] = []"
| "join sep [x] = x"
| "join sep (x # y # ys) = x @ sep @ join sep (y # ys)"

definition py_nth :: "'a list \<Rightarrow> int \<Rightarrow> py_error + 'a" where
  "py_nth xs i =
     (if 0 \<le> i \<and> i < int (length xs) then Inr (xs ! nat i)
      else if i < 0 \<and> - int (length xs) \<le> i then Inr (xs ! nat (int (length xs) + i))
      else Inl IndexError)"

definition py_slice_from :: "'a list \<Rightarrow> int \<Rightarrow> 'a list" where
  "py_slice_from xs k = (if 0 \<le> k then drop (nat k) xs else drop (nat (int (length xs) + k)) xs)"

definition str_label :: "ComplexEdgeLabels \<Rightarrow> string" where
  "str_label c =
     str_int (special_index c) @ ''-'' @ join ''|'' (py_slice_from (non_terminals c) (special_index c + 1))"

definition get_node_to_append :: "ComplexEdgeLabels \<Rightarrow> 'a list \<Rightarrow> py_error + ('a \<times> string list)" where
  "get_node_to_append c path =
     (case py_nth path (special_index c) of Inl e \<Rightarrow> Inl e
      | Inr node_append \<Rightarrow>
          Inr (node_append, py_slice_from (non_terminals c) (special_index c + 1)))"

fun index_of :: "'a list \<Rightarrow> 'a \<Rightarrow> nat" where
  "index_of [] m = 0"
| "index_of (x # xs) m = (if x = m then 0 else Suc (index_of xs m))"

definition index_loop :: "nat list \<Rightarrow> nat list \<Rightarrow> nat option" where
  "index_loop spine_n spine_head =
     fold (\<lambda>m index. if m \<in> set spine_head then Some (index_of spine_head m) else index)
          spine_n None"

definition set_complex_edge :: "digraph \<Rightarrow> nat \<Rightarrow> nat \<Rightarrow> ComplexEdgeLabels \<Rightarrow> py_error + digraph" where
  "set_complex_edge T h n c =
     (if (h, n) \<in> set (map fst (edges T))
      then Inr (T\<lparr>edges := map (\<lambda>(e, d). if e = (h, n)
                                  then (e, d\<lparr>complex_edge := Some c, complex_edge_str := Some (str_label c)\<rparr>)
                                  else (e, d)) (edges T)\<rparr>)
      else Inl KeyError)"

definition spine_label :: "digraph \<Rightarrow> nat \<Rightarrow> nat list \<Rightarrow> int \<Rightarrow> py_error + ComplexEdgeLabels" where
  "spine_label G root0 spine idx =
     (case map_err (\<lambda>m. case attr_of G m of Inl e \<Rightarrow> Inl e | Inr a \<Rightarrow> Inr (type a)) spine of
        Inl e \<Rightarrow> Inl e
      | Inr node_types \<Rightarrow>
     (case map_err (\<lambda>m. getDepth G m root0) spine of Inl e \<Rightarrow> Inl e
      | Inr node_depths \<Rightarrow>
          Inr \<lparr>non_terminals = node_types, depths = node_depths, special_index = idx\<rparr>))"

definition edge_label :: "digraph \<Rightarrow> digraph \<Rightarrow> nat \<Rightarrow> nat \<Rightarrow> nat \<Rightarrow> py_error + ComplexEdgeLabels" where
  "edge_label G T root0 h n =
     (if h = root0 then
        (case shortest_path G h n of Inl e \<Rightarrow> Inl e
         | Inr p \<Rightarrow> spine_label G root0 (inner p) 0)
      else
        (case getHeadDepTree T h of Inl e \<Rightarrow> Inl e
         | Inr h_head \<Rightarrow>
        (case shortest_path G h h_head of Inl e \<Rightarrow> Inl e
         | Inr ph \<Rightarrow>
        (case shortest_path G h n of Inl e \<Rightarrow> Inl e
         | Inr pn \<Rightarrow>
           (let spine_head = inner ph; spine_n = inner pn;
                idx = (case index_loop spine_n spine_head of
                         None \<Rightarrow> int (length spine_n) - 1 | Some i \<Rightarrow> int i)
            in spine_label G root0 spine_n idx)))))"

fun label_loop :: "digraph \<Rightarrow> digraph \<Rightarrow> nat \<Rightarrow> nat list \<Rightarrow> py_error + digraph" where
  "label_loop G T root0 [] = Inr T"
| "label_loop G T root0 (n # ns) =
     (case getHeadDepTree T n of Inl e \<Rightarrow> Inl e
      | Inr h \<Rightarrow>
     (case edge_label G T root0 h n of Inl e \<Rightarrow> Inl e
      | Inr c \<Rightarrow>
     (case set_complex_edge T h n c of Inl e \<Rightarrow> Inl e
      | Inr T1 \<Rightarrow> label_loop G T1 root0 ns)))"

definition labelDepTree :: "digraph \<Rightarrow> digraph \<Rightarrow> py_error + digraph" where
  "labelDepTree G T =
     (case getRoot G of Inl e \<Rightarrow> Inl e
      | Inr r \<Rightarrow> label_loop G T r (other_terminals G r))"

section \<open>Reconstruction\<close>

datatype node_dict = Partial string bool | Full attrs

type_synonym ast_graph = "(node_dict, unit) nxgraph"

definition add_edge_undirected :: "('a, unit) nxgraph \<Rightarrow> nat \<Rightarrow> nat \<Rightarrow> ('a, unit) nxgraph" where
  "add_edge_undirected G u v =
     (if has_edge G u v then G else G\<lparr>edges := edges G @ [((u, v), ())]\<rparr>)"

definition get_correspondence :: "ast_graph \<Rightarrow> digraph \<Rightarrow> nat \<Rightarrow> py_error + nat option" where
  "get_correspondence T_ast T n =
     (if nodes T_ast = [] then Inr None
      else (case attr_of T n of Inl e \<Rightarrow> Inl e
            | Inr a \<Rightarrow> Inr (map_option fst (find (\<lambda>(m, d). d = Full a) (nodes T_ast)))))"

fun append_chain :: "ast_graph \<Rightarrow> nat \<Rightarrow> string list \<Rightarrow> ast_graph \<times> nat" where
  "append_chain T_ast node_append [] = (T_ast, node_append)"
| "append_chain T_ast node_append (nt # rest) =
     (let m = getId T_ast;
          T1 = add_node T_ast m (Partial nt False);
          T2 = add_edge_undirected T1 m node_append
      in append_chain T2 m rest)"

definition shortest_path_opt :: "('a, 'e) nxgraph \<Rightarrow> nat option \<Rightarrow> nat option \<Rightarrow> py_error + nat list" where
  "shortest_path_opt G source target =
     (case (source, target) of (Some s, Some t) \<Rightarrow> shortest_path G s t | _ \<Rightarrow> Inl NodeNotFound)"

definition insertion_path :: "ast_graph \<Rightarrow> digraph \<Rightarrow> nat \<Rightarrow> nat \<Rightarrow> py_error + nat list" where
  "insertion_path T_ast T root0 h =
     (if h = root0 then
        (case shortest_path T_ast 2 0 of Inl e \<Rightarrow> Inl e | Inr p \<Rightarrow> Inr (inner p))
      else
        (case getHeadDepTree T h of Inl e \<Rightarrow> Inl e
         | Inr h_head \<Rightarrow>
        (case get_correspondence T_ast T h of Inl e \<Rightarrow> Inl e
         | Inr h_correspondence \<Rightarrow>
        (case get_correspondence T_ast T h_head of Inl e \<Rightarrow> Inl e
         | Inr h_head_correspondence \<Rightarrow>
        (case shortest_path_opt T_ast h_correspondence h_head_correspondence of Inl e \<Rightarrow> Inl e
         | Inr p \<Rightarrow> Inr (inner p))))))"

definition edge_complex :: "digraph \<Rightarrow> nat \<Rightarrow> nat \<Rightarrow> py_error + ComplexEdgeLabels" where
  "edge_complex T h n =
     (case map_of (edges T) (h, n) of None \<Rightarrow> Inl KeyError
      | Some d \<Rightarrow> (case complex_edge d of None \<Rightarrow> Inl KeyError | Some c \<Rightarrow> Inr c))"

definition reconstruct_step :: "digraph \<Rightarrow> nat \<Rightarrow> ast_graph \<Rightarrow> nat \<Rightarrow> py_error + ast_graph" where
  "reconstruct_step T root0 T_ast n =
     (case getHeadDepTree T n of Inl e \<Rightarrow> Inl e
      | Inr h \<Rightarrow>
     (case insertion_path T_ast T root0 h of Inl e \<Rightarrow> Inl e
      | Inr path \<Rightarrow>
     (case edge_complex T h n of Inl e \<Rightarrow> Inl e
      | Inr edge_data \<Rightarrow>
     (case get_node_to_append edge_data path of Inl e \<Rightarrow> Inl e
      | Inr (node_append, to_append) \<Rightarrow>
     (case attr_of T n of Inl e \<Rightarrow> Inl e
      | Inr a \<Rightarrow>
        (case append_chain T_ast node_append to_append of (T1, node_append1) \<Rightarrow>
           (let m = getId T1;
                T2 = add_node T1 m (Full a)
            in Inr (add_edge_undirected T2 m node_append1))))))))"

fun reconstruct_loop :: "digraph \<Rightarrow> nat \<Rightarrow> ast_graph \<Rightarrow> nat list \<Rightarrow> py_error + ast_graph" where
  "reconstruct_loop T root0 T_ast [] = Inr T_ast"
| "reconstruct_loop T root0 T_ast (n # ns) =
     (case reconstruct_step T root0 T_ast n of Inl e \<Rightarrow> Inl e
      | Inr T1 \<Rightarrow> reconstruct_loop T root0 T1 ns)"

definition from_label_dep_tree_to_ast :: "digraph \<Rightarrow> string \<Rightarrow> py_error + ast_graph" where
  "from_label_dep_tree_to_ast T lang =
     (case getRoot T of Inl e \<Rightarrow> Inl e
      | Inr r \<Rightarrow>
          if lang = ''python'' then
            (case attr_of T r of Inl e \<Rightarrow> Inl e
             | Inr a \<Rightarrow>
               (let T0 = add_node empty_graph 0 (Partial ''module'' False);
                    T1 = add_node T0 1 (Partial ''function_definition'' False);
                    T2 = add_node T1 2 (Full a);
                    T3 = add_edge_undirected T2 0 1;
                    T4 = add_edge_undirected T3 1 2;
                    nodes1 = filter (\<lambda>(n, a). n \<noteq> r) (nodes T);
                    nodes2 = map fst (sort_key (\<lambda>(n, a). start a) nodes1)
                in reconstruct_loop T r T4 nodes2))
          else Inr empty_graph)"

definition pipeline :: "digraph \<Rightarrow> (py_error + ast_graph) option" where
  "pipeline G =
     (case enrichAstWithDeps G of None \<Rightarrow> None
      | Some (Inl e) \<Rightarrow> Some (Inl e)
      | Some (Inr G1) \<Rightarrow>
          (case labelDepTree G (getDependencyTree G1) of Inl e \<Rightarrow> Some (Inl e)
           | Inr T \<Rightarrow> Some (from_label_dep_tree_to_ast T ''python'')))"

section \<open>Notions used in the properties\<close>

text \<open>
  The edges of a graph as a relation, the terminals, and the start position of a node.
\<close>

definition edge_rel :: "('a, 'e) nxgraph \<Rightarrow> (nat \<times> nat) set" where
  "edge_rel G = set (map fst (edges G))"

definition terminal :: "(attrs, 'e) nxgraph \<Rightarrow> nat \<Rightarrow> bool" where
  "terminal G n = (case node_attrs G n of None \<Rightarrow> False | Some a \<Rightarrow> is_terminal a)"

definition start_of :: "(attrs, 'e) nxgraph \<Rightarrow> nat \<Rightarrow> int" where
  "start_of G n = (case node_attrs G n of None \<Rightarrow> 0 | Some a \<Rightarrow> start a)"

definition terminals :: "(attrs, 'e) nxgraph \<Rightarrow> nat list" where
  "terminals G = map fst (filter (\<lambda>(n, a). is_terminal a) (nodes G))"

text \<open>
  The graphs that \<^verbatim>\<open>getGraphFromTree\<close> builds: the identifiers are \<open>0, \<dots>, N - 1\<close> in the
  order of creation, node \<open>k\<close> for \<open>k \<ge> 1\<close> has one incoming edge, the \<open>k\<close>-th edge, from a
  node created earlier, a node is a terminal if and only if it is not node 0 and has no
  child, and no two terminals start at the same position.
\<close>

definition constituency_tree :: "digraph \<Rightarrow> bool" where
  "constituency_tree G \<longleftrightarrow>
     nodes G \<noteq> [] \<and> node_ids G = [0..<length (nodes G)] \<and>
     map (snd \<circ> fst) (edges G) = [1..<length (nodes G)] \<and>
     (\<forall>((u, v), d) \<in> set (edges G). u < v) \<and>
     (\<forall>(n, a) \<in> set (nodes G). is_terminal a \<longleftrightarrow> n \<noteq> 0 \<and> successors G n = []) \<and>
     distinct (map (start_of G) (terminals G))"

definition parent :: "('a, 'e) nxgraph \<Rightarrow> nat \<Rightarrow> nat" where
  "parent G v = (case in_edges G v of [] \<Rightarrow> v | (u, w) # _ \<Rightarrow> u)"

text \<open>
  The candidates of \<^verbatim>\<open>getCandidate\<close>: the terminals below \<open>f\<close> that start before \<open>s\<close>.  The
  head of \<open>n\<close> found at the ancestor \<open>p\<close>: the leftmost candidate below \<open>p\<close>, where no
  ancestor of \<open>n\<close> strictly below \<open>p\<close> has a candidate.
\<close>

definition cands :: "(attrs, 'e) nxgraph \<Rightarrow> nat \<Rightarrow> int \<Rightarrow> nat set" where
  "cands G f s = {t \<in> (edge_rel G)\<^sup>* `` {f}. terminal G t \<and> start_of G t < s}"

definition with_deps :: "digraph \<Rightarrow> (nat \<times> nat) list \<Rightarrow> digraph" where
  "with_deps G ds = G\<lparr>edges := edges G @ map (\<lambda>e. (e, dependency_data)) ds\<rparr>"

definition deps_ok :: "digraph \<Rightarrow> (nat \<times> nat) list \<Rightarrow> bool" where
  "deps_ok G ds \<longleftrightarrow>
     (\<forall>(h, n)\<in>set ds. terminal G h \<and> terminal G n \<and> start_of G h < start_of G n)"

definition is_head :: "digraph \<Rightarrow> nat \<Rightarrow> nat \<Rightarrow> nat \<Rightarrow> bool" where
  "is_head G n p h \<longleftrightarrow>
     (p, n) \<in> (edge_rel G)\<^sup>+ \<and>
     h \<in> cands G p (start_of G n) \<and>
     (\<forall>t\<in>cands G p (start_of G n). start_of G h \<le> start_of G t) \<and>
     (\<forall>q. (p, q) \<in> (edge_rel G)\<^sup>+ \<and> (q, n) \<in> (edge_rel G)\<^sup>+ \<longrightarrow> cands G q (start_of G n) = {})"

definition example_tree :: ts_node where
  "example_tree =
     TSNode ''module'' 0 20 [TSNode ''function_definition'' 0 20
       [TSNode ''def'' 0 3 [], TSNode ''identifier'' 4 5 [],
        TSNode ''parameters'' 5 7 [TSNode ''('' 5 6 [], TSNode '')'' 6 7 []],
        TSNode '':'' 7 8 [],
        TSNode ''block'' 9 20 [TSNode ''pass_statement'' 9 13 [TSNode ''pass'' 9 13 []]]]]"

definition example_graph :: digraph where
  "example_graph = build_graph example_tree"

definition head_of :: "digraph \<Rightarrow> nat \<Rightarrow> nat" where
  "head_of G n = (case selectHead G n of Some (Inr h) \<Rightarrow> h | _ \<Rightarrow> n)"

definition dep_list :: "digraph \<Rightarrow> nat list \<Rightarrow> (nat \<times> nat) list" where
  "dep_list G ns = map (\<lambda>n. (head_of G n, n)) ns"

fun head_walk :: "nat \<Rightarrow> ('a, 'e) nxgraph \<Rightarrow> nat \<Rightarrow> nat \<Rightarrow> nat list option" where
  "head_walk 0 T root0 n = (if n = root0 then Some [n] else None)"
| "head_walk (Suc k) T root0 n =
     (if n = root0 then Some [n]
      else (case getHeadDepTree T n of Inl e \<Rightarrow> None
            | Inr h \<Rightarrow> map_option ((#) n) (head_walk k T root0 h)))"

definition below :: "digraph \<Rightarrow> nat \<Rightarrow> nat set" where
  "below G n = {t. terminal G t \<and> start_of G t < start_of G n}"

text \<open>
  Paths of the undirected view of a graph, and trees given by a parent function.
\<close>

definition adjacent :: "('a, 'e) nxgraph \<Rightarrow> nat \<Rightarrow> nat \<Rightarrow> bool" where
  "adjacent G u v \<longleftrightarrow> (u, v) \<in> edge_rel G \<or> (v, u) \<in> edge_rel G"

fun walk :: "(nat \<Rightarrow> nat \<Rightarrow> bool) \<Rightarrow> nat list \<Rightarrow> bool" where
  "walk adj [] = False"
| "walk adj [x] = True"
| "walk adj (x # y # zs) = (adj x y \<and> walk adj (y # zs))"

definition simple_path :: "(nat \<Rightarrow> nat \<Rightarrow> bool) \<Rightarrow> nat list \<Rightarrow> nat \<Rightarrow> nat \<Rightarrow> bool" where
  "simple_path adj p u v \<longleftrightarrow> walk adj p \<and> distinct p \<and> hd p = u \<and> last p = v"

definition path_inv :: "('a, 'e) nxgraph \<Rightarrow> nat \<Rightarrow> nat list \<Rightarrow> nat list list \<Rightarrow> bool" where
  "path_inv G source seen fr \<longleftrightarrow>
     (\<forall>q\<in>set fr. walk (adjacent G) (rev q) \<and> distinct q \<and> last q = source \<and> set q \<subseteq> set seen)"

definition und_rel :: "('a, 'e) nxgraph \<Rightarrow> (nat \<times> nat) set" where
  "und_rel G = {(u, v). adjacent G u v}"

definition tree_adj :: "(nat \<Rightarrow> nat \<Rightarrow> bool) \<Rightarrow> nat \<Rightarrow> (nat \<Rightarrow> nat) \<Rightarrow> bool" where
  "tree_adj adj N par \<longleftrightarrow>
     (\<forall>v. 1 \<le> v \<and> v < N \<longrightarrow> par v < v) \<and>
     (\<forall>x y. adj x y \<longleftrightarrow> (1 \<le> y \<and> y < N \<and> x = par y) \<or> (1 \<le> x \<and> x < N \<and> y = par x))"

function up_chain :: "(nat \<Rightarrow> nat) \<Rightarrow> nat \<Rightarrow> nat \<Rightarrow> nat list" where
  "up_chain par v a = (if v \<le> a \<or> \<not> par v < v then [v] else v # up_chain par (par v) a)"
  by pat_completeness auto
termination
  by (relation "measure (\<lambda>(par, v, a). v)") auto

declare up_chain.simps [simp del]

text \<open>
  The two halves of the path between a head \<open>h\<close> and its dependent \<open>n\<close> that meet at the
  ancestor \<open>p\<close>: the nodes above \<open>h\<close> up to \<open>p\<close>, and the nodes strictly between \<open>p\<close> and
  \<open>n\<close> on the way down.
\<close>

definition up_part :: "('a, 'e) nxgraph \<Rightarrow> nat \<Rightarrow> nat \<Rightarrow> nat list" where
  "up_part G h p = tl (up_chain (parent G) h p)"

definition down_part :: "('a, 'e) nxgraph \<Rightarrow> nat \<Rightarrow> nat \<Rightarrow> nat list" where
  "down_part G p n = tl (rev (tl (up_chain (parent G) n p)))"

definition type_of :: "(attrs, 'e) nxgraph \<Rightarrow> nat \<Rightarrow> string" where
  "type_of G n = (case node_attrs G n of None \<Rightarrow> [] | Some a \<Rightarrow> type a)"

definition last_shared_index :: "nat list \<Rightarrow> nat list \<Rightarrow> int" where
  "last_shared_index spine_n spine_head =
     (case filter (\<lambda>m. m \<in> set spine_head) spine_n of
        [] \<Rightarrow> int (length spine_n) - 1
      | m # ms \<Rightarrow> int (index_of spine_head (last (m # ms))))"

definition depth_ok :: "digraph \<Rightarrow> nat \<Rightarrow> nat \<Rightarrow> int \<Rightarrow> bool" where
  "depth_ok G root0 m d \<longleftrightarrow>
     (\<exists>pm. simple_path (adjacent G) pm m root0 \<and> d = int (length (inner pm)))"

definition label_of :: "digraph \<Rightarrow> digraph \<Rightarrow> nat \<Rightarrow> nat \<Rightarrow> ComplexEdgeLabels" where
  "label_of G T root0 n =
     (case edge_label G T root0 (head_of G n) n of Inr c \<Rightarrow> c
      | Inl e \<Rightarrow> \<lparr>non_terminals = [], depths = [], special_index = 0\<rparr>)"

definition labelled_tree :: "digraph \<Rightarrow> (py_error + digraph) option" where
  "labelled_tree G =
     (case enrichAstWithDeps G of None \<Rightarrow> None
      | Some (Inl e) \<Rightarrow> Some (Inl e)
      | Some (Inr G1) \<Rightarrow> Some (labelDepTree G (getDependencyTree G1)))"

definition depth_to_node0 :: "digraph \<Rightarrow> nat \<Rightarrow> py_error + int" where
  "depth_to_node0 G m =
     (case shortest_path G m 0 of Inl e \<Rightarrow> Inl e | Inr p \<Rightarrow> Inr (int (length p) - 1))"

definition example_labelled :: "py_error + digraph" where
  "example_labelled =
     (case labelled_tree example_graph of None \<Rightarrow> Inl KeyError | Some res \<Rightarrow> res)"

text \<open>
  What the label \<open>c\<close> of the edge from \<open>h\<close> to \<open>n\<close> records, \<open>r\<close> being the root of the
  dependency tree and \<open>p\<close> the ancestor at which \<open>h\<close> was found.
\<close>

definition label_facts ::
  "digraph \<Rightarrow> nat \<Rightarrow> digraph \<Rightarrow> nat \<Rightarrow> nat \<Rightarrow> nat \<Rightarrow> ComplexEdgeLabels \<Rightarrow> bool" where
  "label_facts G r T h n p c \<longleftrightarrow>
     is_head G n p h \<and> terminal G n \<and> n \<noteq> r
     \<and> simple_path (adjacent G) (h # up_part G h p @ down_part G p n @ [n]) h n
     \<and> up_part G h p \<noteq> []
     \<and> non_terminals c = map (type_of G) (up_part G h p @ down_part G p n)
     \<and> list_all2 (depth_ok G r) (up_part G h p @ down_part G p n) (depths c)
     \<and> (h = r \<longrightarrow> special_index c = 0)
     \<and> (h \<noteq> r \<longrightarrow> special_index c = int (length (up_part G h p)) - 1
          \<and> getHeadDepTree T h = Inr (head_of G h)
          \<and> (\<exists>ph. simple_path (adjacent G) ph h (head_of G h)
                \<and> special_index c
                    = last_shared_index (up_part G h p @ down_part G p n) (inner ph)))"

text \<open>
  One round of the grafting loop of \<^verbatim>\<open>from_label_dep_tree_to_ast\<close>: a fresh node with the
  dictionary \<open>d\<close>, joined to \<open>na\<close>; and a chain of such rounds.
\<close>

definition attach :: "ast_graph \<Rightarrow> nat \<Rightarrow> node_dict \<Rightarrow> ast_graph" where
  "attach T na d = add_edge_undirected (add_node T (getId T) d) (getId T) na"

fun attach_chain :: "ast_graph \<Rightarrow> nat \<Rightarrow> node_dict list \<Rightarrow> ast_graph" where
  "attach_chain T na [] = T"
| "attach_chain T na (d # ds) = attach_chain (attach T na d) (getId T) ds"

text \<open>
  The shape of the tree under reconstruction: its nodes are \<open>0, \<dots>, M - 1\<close>, it is a tree,
  and \<open>f\<close> maps the upward closed set \<open>A\<close> of nodes of the constituency tree into it,
  injectively and preserving edges.
\<close>

definition struct_inv ::
  "digraph \<Rightarrow> ast_graph \<Rightarrow> nat \<Rightarrow> (nat \<Rightarrow> nat) \<Rightarrow> nat set \<Rightarrow> bool" where
  "struct_inv G T M f A \<longleftrightarrow>
     node_ids T = [0..<M] \<and> (\<exists>par. tree_adj (adjacent T) M par) \<and>
     inj_on f A \<and> f ` A \<subseteq> {..<M} \<and>
     (\<forall>x y. x \<in> A \<and> y \<in> A \<and> (x, y) \<in> edge_rel G \<longrightarrow> adjacent T (f x) (f y)) \<and>
     (\<forall>y\<in>A. \<forall>x. (x, y) \<in> edge_rel G \<longrightarrow> x \<in> A)"

fun gchain :: "('a, 'e) nxgraph \<Rightarrow> nat \<Rightarrow> nat list \<Rightarrow> bool" where
  "gchain G a [] = True"
| "gchain G a (x # xs) = ((a, x) \<in> edge_rel G \<and> gchain G x xs)"

fun extend_map :: "(nat \<Rightarrow> nat) \<Rightarrow> nat list \<Rightarrow> nat \<Rightarrow> nat \<Rightarrow> nat" where
  "extend_map f [] M = f"
| "extend_map f (x # xs) M = extend_map (f(x := M)) xs (Suc M)"

text \<open>
  The start of the reconstruction for Python, read as a condition on a constituency
  tree: node 0 is \<open>module\<close>, its only child is node 1, \<open>function_definition\<close>, and the
  leftmost terminal is node 2, a child of node 1.
\<close>

definition python_scaffold :: "digraph \<Rightarrow> bool" where
  "python_scaffold G \<longleftrightarrow>
     type_of G 0 = ''module'' \<and> type_of G 1 = ''function_definition'' \<and>
     successors G 0 = [1] \<and> in_edges G 2 = [(1, 2)] \<and> getRoot G = Inr 2"

text \<open>
  The nodes above or equal to a node of \<open>S\<close>; the ancestor at which the head of \<open>n\<close> is
  found; the terminals of \<open>S\<close> and the nodes of the reconstruction that carry a full
  dictionary correspond under \<open>f\<close>.
\<close>

definition anc :: "('a, 'e) nxgraph \<Rightarrow> nat set \<Rightarrow> nat set" where
  "anc G S = {x. \<exists>t\<in>S. (x, t) \<in> (edge_rel G)\<^sup>*}"

definition nearest :: "digraph \<Rightarrow> nat \<Rightarrow> nat" where
  "nearest G n = (THE p. is_head G n p (head_of G n))"

definition attr_inv :: "digraph \<Rightarrow> ast_graph \<Rightarrow> (nat \<Rightarrow> nat) \<Rightarrow> nat set \<Rightarrow> bool" where
  "attr_inv G T f S \<longleftrightarrow>
     (\<forall>t\<in>S. \<exists>a. node_attrs G t = Some a \<and> (f t, Full a) \<in> set (nodes T)) \<and>
     (\<forall>m a. (m, Full a) \<in> set (nodes T) \<longrightarrow> (\<exists>t\<in>S. m = f t \<and> node_attrs G t = Some a))"

text \<open>
  What the reconstruction uses of the labelled dependency tree \<open>T\<close> of \<open>G\<close>, the root being
  node 2.
\<close>

definition tree_facts :: "digraph \<Rightarrow> digraph \<Rightarrow> bool" where
  "tree_facts G T \<longleftrightarrow>
     nodes T = filter (\<lambda>(n, a). is_terminal a) (nodes G) \<and>
     (\<forall>n. terminal G n \<and> n \<noteq> 2 \<longrightarrow>
        getHeadDepTree T n = Inr (head_of G n)
        \<and> (\<exists>c p. edge_complex T (head_of G n) n = Inr c
               \<and> label_facts G 2 T (head_of G n) n p c))"

text \<open>
  The dictionary that the reconstruction gives to a node with attributes \<open>a\<close>: all the
  attributes of a terminal, type and \<^verbatim>\<open>is_terminal=False\<close> for a non-terminal.
\<close>

definition embed :: "attrs \<Rightarrow> node_dict" where
  "embed a = (if is_terminal a then Full a else Partial (type a) False)"

definition content :: "digraph \<Rightarrow> nat \<Rightarrow> node_dict" where
  "content G x = embed (the (node_attrs G x))"

definition recon_inv :: "digraph \<Rightarrow> ast_graph \<Rightarrow> nat set \<Rightarrow> bool" where
  "recon_inv G T_ast S \<longleftrightarrow>
     (\<exists>M f. struct_inv G T_ast M f (anc G S) \<and> f 0 = 0 \<and> f 1 = 1 \<and> f 2 = 2
            \<and> attr_inv G T_ast f S) \<and>
     mset (map snd (nodes T_ast)) = image_mset (content G) (mset_set (anc G S))"

text \<open>
  The terminals of a tree in the order of \<open>start\<close>, and the type names of its
  non-terminals, for a constituency tree and for a reconstructed tree.
\<close>

definition terminal_sequence :: "digraph \<Rightarrow> attrs list" where
  "terminal_sequence G = sort_key start (filter is_terminal (map snd (nodes G)))"

definition nonterminal_types :: "digraph \<Rightarrow> string list" where
  "nonterminal_types G = map type (filter (\<lambda>a. \<not> is_terminal a) (map snd (nodes G)))"

fun dict_terminal :: "node_dict \<Rightarrow> attrs list" where
  "dict_terminal (Full a) = (if is_terminal a then [a] else [])"
| "dict_terminal (Partial ty b) = []"

fun dict_nonterminal :: "node_dict \<Rightarrow> string list" where
  "dict_nonterminal (Full a) = (if is_terminal a then [] else [type a])"
| "dict_nonterminal (Partial ty b) = (if b then [] else [ty])"

definition ast_terminal_sequence :: "ast_graph \<Rightarrow> attrs list" where
  "ast_terminal_sequence T = sort_key start (concat (map dict_terminal (map snd (nodes T))))"

definition ast_nonterminal_types :: "ast_graph \<Rightarrow> string list" where
  "ast_nonterminal_types T = concat (map dict_nonterminal (map snd (nodes T)))"

text \<open>
  The graph before the first round of \<^verbatim>\<open>for n in nodes\<close>, \<open>a\<close> being the attributes of the
  root of the dependency tree.
\<close>

definition scaffold_graph :: "attrs \<Rightarrow> ast_graph" where
  "scaffold_graph a =
     add_edge_undirected (add_edge_undirected
       (add_node (add_node (add_node empty_graph 0 (Partial ''module'' False))
          1 (Partial ''function_definition'' False)) 2 (Full a)) 0 1) 1 2"

text \<open>A tree whose leftmost terminal is not a child of \<open>function_definition\<close>.\<close>

definition nested_first_tree :: ts_node where
  "nested_first_tree =
     TSNode ''module'' 0 20 [TSNode ''function_definition'' 0 20
       [TSNode ''X'' 0 1 [TSNode ''a'' 0 1 []], TSNode ''b'' 1 2 [], TSNode ''c'' 2 3 []]]"

definition nested_first_graph :: digraph where
  "nested_first_graph = build_graph nested_first_tree"

text \<open>
  A graph over the terminals of the example in which the identifier (node 3) is its own
  head and the head of \<open>pass\<close> (node 10).  It is not the dependency tree of the example,
  and the path from node 3 to its head has no inside.
\<close>

definition self_headed_graph :: digraph where
  "self_headed_graph =
     \<lparr>nodes = filter (\<lambda>(n, a). is_terminal a) (nodes example_graph),
      edges = map (\<lambda>e. (e, dependency_data)) [(3, 3), (2, 5), (5, 6), (2, 7), (3, 10)]\<rparr>"

section \<open>Properties of the tree comparison\<close>

lemma uas_fold_gen:
  "fold (\<lambda>((s, t), _) (cnt, i). (if has_edge T s t then cnt + 1 else cnt, i + 1)) es (c, j)
     = (c + length (filter (\<lambda>((s, t), _). has_edge T s t) es), j + length es)"
  by (induction es arbitrary: c j) (auto split: prod.splits)

lemma uas_loop_eq:
  "uas_loop T es = (length (filter (\<lambda>((s, t), _). has_edge T s t) es), length es)"
  unfolding uas_loop_def by (subst uas_fold_gen) simp

lemma has_edge_own: "((s, t), d) \<in> set (edges T) \<Longrightarrow> has_edge T s t"
  by (force simp: has_edge_def)

text \<open>
  C7.  Given two graphs with different numbers of nodes, or with the same number of nodes
  and different numbers of edges, \<^verbatim>\<open>getUAS\<close> raises the error of its assertions (the
  module's size-mismatch error) and returns no score.
\<close>

theorem getUAS_size_mismatch:
  "length (nodes T_true) \<noteq> length (nodes T_pred)
     \<or> (length (nodes T_true) = length (nodes T_pred)
          \<and> length (edges T_true) \<noteq> length (edges T_pred))
   \<Longrightarrow> getUAS T_true T_pred = Inl AssertionError"
  by (auto simp: getUAS_def)

theorem getUAS_size_mismatch_witness:
  "getUAS \<lparr>nodes = [(0, ()), (1, ())], edges = [((0, 1), ())]\<rparr>
          \<lparr>nodes = [(0::nat, ())], edges = ([] :: ((nat \<times> nat) \<times> unit) list)\<rparr>
     = Inl AssertionError
   \<and> getUAS \<lparr>nodes = [(0, ()), (1, ())], edges = [((0, 1), ())]\<rparr>
            \<lparr>nodes = [(0::nat, ()), (1, ())], edges = ([] :: ((nat \<times> nat) \<times> unit) list)\<rparr>
     = Inl AssertionError"
  using getUAS_size_mismatch
          [of "\<lparr>nodes = [(0, ()), (1, ())], edges = [((0, 1), ())]\<rparr>"
              "\<lparr>nodes = [(0::nat, ())], edges = ([] :: ((nat \<times> nat) \<times> unit) list)\<rparr>"]
        getUAS_size_mismatch
          [of "\<lparr>nodes = [(0, ()), (1, ())], edges = [((0, 1), ())]\<rparr>"
              "\<lparr>nodes = [(0::nat, ()), (1, ())], edges = ([] :: ((nat \<times> nat) \<times> unit) list)\<rparr>"]
  by simp

text \<open>
  C8, as stated, fails on the tree with a single node: it has no edge, and the score of
  the tree against itself is the division of zero by zero.
\<close>

theorem getUAS_single_node_counterexample:
  "getUAS \<lparr>nodes = [(0::nat, ())], edges = ([] :: ((nat \<times> nat) \<times> unit) list)\<rparr>
          \<lparr>nodes = [(0::nat, ())], edges = ([] :: ((nat \<times> nat) \<times> unit) list)\<rparr>
     = Inl ZeroDivisionError"
  by (simp add: getUAS_def uas_loop_def)

text \<open>
  C8, amended.  For every graph \<open>T\<close> with at least one edge, the score of \<open>T\<close> against
  itself is exactly 1; and for two graphs with equal node and edge counts, at least one
  edge, and no edge of the prediction present in the true tree, the score is exactly 0.
\<close>

theorem getUAS_self_and_disjoint:
  "(edges T \<noteq> [] \<longrightarrow> getUAS T T = Inr 1)
   \<and> (length (nodes T_true) = length (nodes T_pred)
        \<and> length (edges T_true) = length (edges T_pred)
        \<and> edges T_pred \<noteq> []
        \<and> (\<forall>((s, t), d) \<in> set (edges T_pred). \<not> has_edge T_true s t)
      \<longrightarrow> getUAS T_true T_pred = Inr 0)"
proof (intro conjI impI)
  assume ne: "edges T \<noteq> []"
  have "filter (\<lambda>((s, t), _). has_edge T s t) (edges T) = edges T"
    by (rule filter_True) (auto intro: has_edge_own)
  with ne show "getUAS T T = Inr 1"
    by (simp add: getUAS_def uas_loop_eq)
next
  assume h: "length (nodes T_true) = length (nodes T_pred)
        \<and> length (edges T_true) = length (edges T_pred)
        \<and> edges T_pred \<noteq> []
        \<and> (\<forall>((s, t), d) \<in> set (edges T_pred). \<not> has_edge T_true s t)"
  then have "filter (\<lambda>((s, t), _). has_edge T_true s t) (edges T_pred) = []"
    by (auto simp: filter_empty_conv)
  with h show "getUAS T_true T_pred = Inr 0"
    by (simp add: getUAS_def uas_loop_eq)
qed

theorem getUAS_self_and_disjoint_witness:
  "getUAS \<lparr>nodes = [(0::nat, ()), (1, ()), (2, ())], edges = [((0, 1), ()), ((1, 2), ())]\<rparr>
          \<lparr>nodes = [(0::nat, ()), (1, ()), (2, ())], edges = [((0, 1), ()), ((1, 2), ())]\<rparr>
     = Inr 1
   \<and> getUAS \<lparr>nodes = [(0::nat, ()), (1, ()), (2, ()), (3, ())],
             edges = [((0, 1), ()), ((1, 2), ()), ((2, 3), ())]\<rparr>
            \<lparr>nodes = [(0::nat, ()), (1, ()), (2, ()), (3, ())],
             edges = [((0, 2), ()), ((3, 0), ()), ((1, 3), ())]\<rparr>
     = Inr 0"
  using getUAS_self_and_disjoint
          [of "\<lparr>nodes = [(0::nat, ()), (1, ()), (2, ())], edges = [((0, 1), ()), ((1, 2), ())]\<rparr>"
              "\<lparr>nodes = [(0::nat, ()), (1, ()), (2, ()), (3, ())],
                edges = [((0, 1), ()), ((1, 2), ()), ((2, 3), ())]\<rparr>"
              "\<lparr>nodes = [(0::nat, ()), (1, ()), (2, ()), (3, ())],
                edges = [((0, 2), ()), ((3, 0), ()), ((1, 3), ())]\<rparr>"]
  by (simp add: has_edge_def)

section \<open>Properties of the tree builder\<close>

text \<open>
  C10.  Whatever the source text, the comment strippers and the parser are, \<^verbatim>\<open>code2ast\<close>
  called with a language other than \<^verbatim>\<open>python\<close> and \<^verbatim>\<open>javascript\<close> returns \<^verbatim>\<open>None\<close>: no
  graph, no error, no default language.
\<close>

theorem code2ast_other_lang_None:
  "lang \<noteq> ''python'' \<Longrightarrow> lang \<noteq> ''javascript'' \<Longrightarrow> code2ast rp rj code parser lang = None"
  by (simp add: code2ast_def)

theorem code2ast_other_lang_None_witness:
  "code2ast id id ''x = 1'' (\<lambda>c. TSNode ''program'' 0 5 []) ''java'' = None"
  using code2ast_other_lang_None [of "''java''" id id "''x = 1''" "\<lambda>c. TSNode ''program'' 0 5 []"]
  by simp

lemma set_successors_rel: "set (successors G u) = edge_rel G `` {u}"
  by (auto simp: set_successors edge_rel_def)

lemma rtrancl_Image_absorb:
  assumes "B \<subseteq> r\<^sup>* `` A"
  shows "r\<^sup>* `` (A \<union> B) = r\<^sup>* `` A"
proof -
  have "r\<^sup>* `` B \<subseteq> r\<^sup>* `` A"
    using assms by (auto intro: rtrancl_trans)
  then show ?thesis by auto
qed

lemma bfs_levels_reach:
  "set lvl \<subseteq> set seen \<Longrightarrow> edge_rel G `` (set seen - set lvl) \<subseteq> set seen
     \<Longrightarrow> set seen \<union> set (bfs_levels G seen lvl) = (edge_rel G)\<^sup>* `` set seen"
proof (induction G seen lvl rule: bfs_levels.induct)
  case (1 G seen lvl)
  show ?case
  proof (cases "lvl = []")
    case True
    with 1(3) have "edge_rel G `` set seen \<subseteq> set seen" by simp
    then have "(edge_rel G)\<^sup>* `` set seen = set seen" by (rule Image_closed_trancl)
    with True show ?thesis by simp
  next
    case False
    define nl where "nl = new_nodes seen (concat (map (successors G) lvl))"
    have snl: "set nl = edge_rel G `` set lvl - set seen"
      by (auto simp: nl_def set_new_nodes set_successors_rel)
    have a: "set nl \<subseteq> set (seen @ nl)" by simp
    have "set (seen @ nl) - set nl = set seen" using snl by auto
    moreover have "edge_rel G `` set seen \<subseteq> set seen \<union> set nl"
      using 1(3) snl by blast
    ultimately have b: "edge_rel G `` (set (seen @ nl) - set nl) \<subseteq> set (seen @ nl)" by simp
    have ih: "set (seen @ nl) \<union> set (bfs_levels G (seen @ nl) nl)
                = (edge_rel G)\<^sup>* `` set (seen @ nl)"
      using "1.IH"[OF False nl_def a b] .
    have "set nl \<subseteq> (edge_rel G)\<^sup>* `` set seen"
      using snl 1(2) by auto
    then have "(edge_rel G)\<^sup>* `` (set seen \<union> set nl) = (edge_rel G)\<^sup>* `` set seen"
      by (rule rtrancl_Image_absorb)
    with ih have "set seen \<union> set nl \<union> set (bfs_levels G (seen @ nl) nl)
                    = (edge_rel G)\<^sup>* `` set seen" by simp
    moreover have "bfs_levels G seen lvl = nl @ bfs_levels G (seen @ nl) nl"
      using False by (subst bfs_levels.simps) (simp add: nl_def Let_def)
    ultimately show ?thesis by auto
  qed
qed

lemma sssp_reach:
  "source \<in> set (node_ids G) \<Longrightarrow>
     \<exists>ns. single_source_shortest_path_length G source = Inr ns
       \<and> set ns = (edge_rel G)\<^sup>* `` {source}"
  using bfs_levels_reach[of "[source]" "[source]" G]
  by (simp add: single_source_shortest_path_length_def)

subsection \<open>Lists\<close>

lemma map_err_all: "(\<forall>x\<in>set xs. f x = Inr (g x)) \<Longrightarrow> map_err f xs = Inr (map g xs)"
  by (induction xs) auto

lemma hd_sort_key_min:
  fixes k :: "'a \<Rightarrow> int"
  assumes "xs \<noteq> []"
  shows "hd (sort_key k xs) \<in> set xs \<and> (\<forall>y\<in>set xs. k (hd (sort_key k xs)) \<le> k y)"
proof -
  define ys where "ys = sort_key k xs"
  have ne: "ys \<noteq> []" using assms by (auto simp: ys_def dest: arg_cong[where f = length])
  have s: "sorted (map k ys)" and st: "set ys = set xs" by (simp_all add: ys_def)
  obtain z zs where z: "ys = z # zs" using ne by (cases ys) auto
  with s have "\<forall>y\<in>set ys. k z \<le> k y" by auto
  with z st show ?thesis unfolding ys_def[symmetric] by auto
qed

subsection \<open>Node attributes\<close>

lemma node_attrs_Some:
  "distinct (node_ids G) \<Longrightarrow> (n, a) \<in> set (nodes G) \<Longrightarrow> node_attrs G n = Some a"
  by (simp add: node_attrs_def node_ids_def)

lemma node_attrs_in: "n \<in> set (node_ids G) \<Longrightarrow> \<exists>a. node_attrs G n = Some a \<and> (n, a) \<in> set (nodes G)"
  unfolding node_attrs_def node_ids_def
  by (metis (no_types, lifting) image_iff list.set_map map_of_SomeD weak_map_of_SomeI
      domIff dom_map_of_conv_image_fst option.exhaust)

lemma attr_of_in:
  "n \<in> set (node_ids G) \<Longrightarrow> attr_of G n = Inr (the (node_attrs G n))"
  using node_attrs_in[of n G] by (auto simp: attr_of_def)

subsection \<open>Candidates\<close>

lemma getCandidate_spec:
  assumes f: "f \<in> set (node_ids G)"
    and closed: "(edge_rel G)\<^sup>* `` {f} \<subseteq> set (node_ids G)"
  shows "(cands G f s = {} \<longrightarrow> getCandidate G f s = Inr None)
       \<and> (cands G f s \<noteq> {} \<longrightarrow>
            (\<exists>h. getCandidate G f s = Inr (Some h) \<and> h \<in> cands G f s
                 \<and> (\<forall>t\<in>cands G f s. start_of G h \<le> start_of G t)))"
proof -
  from sssp_reach[OF f] obtain ns where
    ns: "single_source_shortest_path_length G f = Inr ns"
    and sns: "set ns = (edge_rel G)\<^sup>* `` {f}" by auto
  define g where "g = (\<lambda>n. (n, the (node_attrs G n)))"
  have "\<forall>n\<in>set ns. (case attr_of G n of Inl e \<Rightarrow> Inl e | Inr a \<Rightarrow> Inr (n, a)) = Inr (g n)"
    using closed sns by (auto simp: attr_of_in g_def)
  then have me: "map_err (\<lambda>n. case attr_of G n of Inl e \<Rightarrow> Inl e | Inr a \<Rightarrow> Inr (n, a)) ns
                   = Inr (map g ns)" by (rule map_err_all)
  define nodes2 where
    "nodes2 = filter (\<lambda>(n, a). start a < s) (filter (\<lambda>(n, a). is_terminal a) (map g ns))"
  have gc: "getCandidate G f s =
              (if nodes2 = [] then Inr None
               else Inr (Some (fst (hd (sort_key (\<lambda>(n, a). start a) nodes2)))))"
    by (simp add: getCandidate_def ns me nodes2_def Let_def)
  have tg: "terminal G n = is_terminal (snd (g n))" "start_of G n = start (snd (g n))"
    if "n \<in> set ns" for n
  proof -
    have "n \<in> set (node_ids G)" using that closed sns by auto
    from node_attrs_in[OF this] obtain a where "node_attrs G n = Some a" by auto
    then show "terminal G n = is_terminal (snd (g n))" "start_of G n = start (snd (g n))"
      by (simp_all add: terminal_def start_of_def g_def)
  qed
  have s2: "set nodes2 = g ` cands G f s"
    using tg sns by (auto simp: nodes2_def cands_def g_def)
  have fst2: "fst ` set nodes2 = cands G f s"
    unfolding s2 by (force simp: g_def)
  show ?thesis
  proof (cases "nodes2 = []")
    case True
    with fst2 gc show ?thesis by auto
  next
    case False
    define m where "m = hd (sort_key (\<lambda>(n, a). start a) nodes2)"
    from hd_sort_key_min[OF False, of "\<lambda>(n, a). start a"]
    have m_in: "m \<in> set nodes2"
      and m_min: "\<forall>y\<in>set nodes2. (\<lambda>(n, a). start a) m \<le> (\<lambda>(n, a). start a) y"
      by (auto simp: m_def)
    from m_in s2 obtain h where h: "h \<in> cands G f s" "m = g h" by auto
    have hns: "h \<in> set ns" using h(1) sns by (simp add: cands_def)
    have "start_of G h \<le> start_of G t" if "t \<in> cands G f s" for t
    proof -
      have tns: "t \<in> set ns" using that sns by (simp add: cands_def)
      have "g t \<in> set nodes2" using that s2 by auto
      with m_min have "start (snd m) \<le> start (snd (g t))" by (auto simp: case_prod_beta)
      then show ?thesis using tg(2)[OF tns] tg(2)[OF hns] h(2) by simp
    qed
    moreover have "getCandidate G f s = Inr (Some h)"
      using gc False h(2) by (simp add: m_def[symmetric] g_def)
    moreover have "cands G f s \<noteq> {}" using h(1) by auto
    ultimately show ?thesis using h(1) by auto
  qed
qed

subsection \<open>Constituency trees\<close>

lemma ct_ids: "constituency_tree G \<Longrightarrow> set (node_ids G) = {..<length (nodes G)}"
  by (auto simp: constituency_tree_def)

lemma ct_distinct_ids: "constituency_tree G \<Longrightarrow> distinct (node_ids G)"
  by (simp add: constituency_tree_def)

lemma ct_targets: "constituency_tree G \<Longrightarrow> snd ` edge_rel G = {1..<length (nodes G)}"
proof -
  assume "constituency_tree G"
  then have "map snd (map fst (edges G)) = [1..<length (nodes G)]"
    by (simp add: constituency_tree_def)
  then have "set (map snd (map fst (edges G))) = {1..<length (nodes G)}" by (simp del: map_map)
  then show ?thesis by (simp add: edge_rel_def del: map_map)
qed

lemma ct_edge:
  assumes "constituency_tree G" "(u, v) \<in> edge_rel G"
  shows "u < v" "v < length (nodes G)" "1 \<le> v"
proof -
  from assms show "u < v" by (force simp: constituency_tree_def edge_rel_def)
  have "v \<in> snd ` edge_rel G" using assms(2) by force
  with ct_targets[OF assms(1)] show "v < length (nodes G)" "1 \<le> v" by auto
qed

lemma distinct_snd_unique:
  "distinct (map snd xs) \<Longrightarrow> (a, c) \<in> set xs \<Longrightarrow> (b, c) \<in> set xs \<Longrightarrow> a = b"
  by (induction xs) (auto simp: rev_image_eqI)

lemma ct_unique_parent:
  assumes "constituency_tree G" "(u, v) \<in> edge_rel G" "(w, v) \<in> edge_rel G"
  shows "u = w"
proof -
  from assms(1) have "map snd (map fst (edges G)) = [1..<length (nodes G)]"
    by (simp add: constituency_tree_def)
  then have "distinct (map snd (map fst (edges G)))" by simp
  from distinct_snd_unique[OF this] assms(2,3) show ?thesis by (simp add: edge_rel_def)
qed

lemma ct_has_parent:
  assumes "constituency_tree G" "1 \<le> v" "v < length (nodes G)"
  shows "\<exists>u. (u, v) \<in> edge_rel G"
proof -
  have "v \<in> snd ` edge_rel G" using ct_targets[OF assms(1)] assms(2,3) by simp
  then show ?thesis by force
qed

lemma ct_trancl_less:
  assumes "constituency_tree G" "(a, b) \<in> (edge_rel G)\<^sup>+"
  shows "a < b \<and> b < length (nodes G)"
  using assms(2)
proof (induction rule: trancl_induct)
  case (base y)
  then show ?case using ct_edge[OF assms(1)] by blast
next
  case (step y z)
  then show ?case using ct_edge[OF assms(1), of y z] by auto
qed

lemma ct_rtrancl_bound:
  assumes "constituency_tree G" "(a, b) \<in> (edge_rel G)\<^sup>*" "a < length (nodes G)"
  shows "a \<le> b \<and> b < length (nodes G)"
  using assms(2,3) ct_trancl_less[OF assms(1), of a b]
  by (auto simp: rtrancl_eq_or_trancl)

lemma ct_root_reaches:
  assumes "constituency_tree G"
  shows "v < length (nodes G) \<Longrightarrow> (0, v) \<in> (edge_rel G)\<^sup>*"
proof (induction v rule: less_induct)
  case (less v)
  show ?case
  proof (cases "v = 0")
    case True
    then show ?thesis by simp
  next
    case False
    with ct_has_parent[OF assms, of v] less.prems obtain u where u: "(u, v) \<in> edge_rel G" by auto
    from ct_edge[OF assms u] have "u < v" by simp
    with less.IH[of u] less.prems have "(0, u) \<in> (edge_rel G)\<^sup>*" by simp
    with u show ?thesis by auto
  qed
qed

lemma ct_anc_comparable:
  assumes ct: "constituency_tree G"
    and an: "(a, n) \<in> (edge_rel G)\<^sup>+" and bn: "(b, n) \<in> (edge_rel G)\<^sup>+"
  shows "a = b \<or> (a, b) \<in> (edge_rel G)\<^sup>+ \<or> (b, a) \<in> (edge_rel G)\<^sup>+"
  using an bn
proof (induction arbitrary: b rule: trancl_induct)
  case (base y)
  from base(2) obtain c where c: "(b, c) \<in> (edge_rel G)\<^sup>*" "(c, y) \<in> edge_rel G"
    by (auto dest: tranclD2)
  from ct_unique_parent[OF ct c(2) base(1)] have "c = a" .
  with c(1) show ?case by (auto simp: rtrancl_eq_or_trancl)
next
  case (step y z)
  from step(4) obtain c where c: "(b, c) \<in> (edge_rel G)\<^sup>*" "(c, z) \<in> edge_rel G"
    by (auto dest: tranclD2)
  from ct_unique_parent[OF ct c(2) step(2)] have "c = y" .
  with c(1) have "b = y \<or> (b, y) \<in> (edge_rel G)\<^sup>+" by (auto simp: rtrancl_eq_or_trancl)
  then show ?case
  proof
    assume "b = y"
    with step(1) show ?thesis by simp
  next
    assume "(b, y) \<in> (edge_rel G)\<^sup>+"
    from step(3)[OF this] show ?thesis .
  qed
qed

lemma ct_node_attrs:
  assumes "constituency_tree G" "v < length (nodes G)"
  shows "\<exists>a. node_attrs G v = Some a \<and> (v, a) \<in> set (nodes G)"
  using node_attrs_in[of v G] ct_ids[OF assms(1)] assms(2) by simp

lemma ct_terminal:
  assumes "constituency_tree G"
  shows "terminal G t \<longleftrightarrow> t < length (nodes G) \<and> t \<noteq> 0 \<and> edge_rel G `` {t} = {}"
proof
  assume t: "terminal G t"
  then obtain a where a: "node_attrs G t = Some a" "is_terminal a"
    by (auto simp: terminal_def split: option.splits)
  then have in_n: "(t, a) \<in> set (nodes G)" by (auto simp: node_attrs_def dest: map_of_SomeD)
  then have "t \<in> set (node_ids G)" by (force simp: node_ids_def)
  then have "t < length (nodes G)" using ct_ids[OF assms] by simp
  moreover from assms in_n a(2) have "t \<noteq> 0 \<and> successors G t = []"
    by (auto simp: constituency_tree_def)
  moreover have "set (successors G t) = edge_rel G `` {t}" by (rule set_successors_rel)
  ultimately show "t < length (nodes G) \<and> t \<noteq> 0 \<and> edge_rel G `` {t} = {}" by simp
next
  assume h: "t < length (nodes G) \<and> t \<noteq> 0 \<and> edge_rel G `` {t} = {}"
  with ct_node_attrs[OF assms, of t] obtain a where
    a: "node_attrs G t = Some a" "(t, a) \<in> set (nodes G)" by auto
  have "set (successors G t) = {}" using h by (simp add: set_successors_rel)
  then have "successors G t = []" by simp
  with assms a(2) h have "is_terminal a" by (auto simp: constituency_tree_def)
  with a(1) show "terminal G t" by (simp add: terminal_def)
qed

lemma set_terminals:
  "distinct (node_ids G) \<Longrightarrow> set (terminals G) = {t. terminal G t}"
proof (intro set_eqI iffI)
  fix t assume d: "distinct (node_ids G)" and "t \<in> set (terminals G)"
  then obtain a where "(t, a) \<in> set (nodes G)" "is_terminal a"
    by (auto simp: terminals_def)
  with node_attrs_Some[OF d] show "t \<in> {t. terminal G t}" by (auto simp: terminal_def)
next
  fix t assume "t \<in> {t. terminal G t}"
  then obtain a where a: "node_attrs G t = Some a" "is_terminal a"
    by (auto simp: terminal_def split: option.splits)
  then have "(t, a) \<in> set (nodes G)" by (auto simp: node_attrs_def dest: map_of_SomeD)
  with a(2) show "t \<in> set (terminals G)" by (force simp: terminals_def)
qed

lemma ct_start_inj:
  assumes "constituency_tree G" "terminal G t" "terminal G u" "start_of G t = start_of G u"
  shows "t = u"
proof -
  from assms(1) have "distinct (map (start_of G) (terminals G))"
    by (simp add: constituency_tree_def)
  then have "inj_on (start_of G) (set (terminals G))" by (simp add: distinct_map)
  moreover have "t \<in> set (terminals G)" "u \<in> set (terminals G)"
    using assms(2,3) set_terminals[OF ct_distinct_ids[OF assms(1)]] by auto
  ultimately show ?thesis using assms(4) by (auto dest: inj_onD)
qed

subsection \<open>Graphs with dependency edges\<close>

lemma with_deps_simps:
  "nodes (with_deps G ds) = nodes G"
  "node_ids (with_deps G ds) = node_ids G"
  "node_attrs (with_deps G ds) = node_attrs G"
  "attr_of (with_deps G ds) = attr_of G"
  "terminal (with_deps G ds) = terminal G"
  "start_of (with_deps G ds) = start_of G"
  "edge_rel (with_deps G ds) = edge_rel G \<union> set ds"
  by (auto simp: with_deps_def node_ids_def node_attrs_def attr_of_def terminal_def start_of_def
      edge_rel_def fun_eq_iff image_image)

lemma with_deps_Nil: "with_deps G [] = G"
  by (simp add: with_deps_def)

lemma enriched_reach:
  assumes ct: "constituency_tree G" and ok: "deps_ok G ds"
    and r: "(f, x) \<in> (edge_rel (with_deps G ds))\<^sup>*"
  shows "(f, x) \<in> (edge_rel G)\<^sup>* \<or>
         (\<exists>t. (f, t) \<in> (edge_rel G)\<^sup>* \<and> terminal G t \<and> terminal G x
               \<and> start_of G t < start_of G x)"
  using r
proof (induction rule: rtrancl_induct)
  case base
  then show ?case by simp
next
  case (step y z)
  from step(2) have "(y, z) \<in> edge_rel G \<or> (y, z) \<in> set ds" by (simp add: with_deps_simps)
  then show ?case
  proof
    assume e: "(y, z) \<in> edge_rel G"
    then have "\<not> terminal G y" using ct_terminal[OF ct, of y] by auto
    with step(3) have "(f, y) \<in> (edge_rel G)\<^sup>*" by auto
    with e show ?thesis by auto
  next
    assume d: "(y, z) \<in> set ds"
    with ok have tz: "terminal G y" "terminal G z" "start_of G y < start_of G z"
      by (auto simp: deps_ok_def)
    from step(3) show ?thesis
    proof
      assume "(f, y) \<in> (edge_rel G)\<^sup>*"
      with tz show ?thesis by blast
    next
      assume "\<exists>t. (f, t) \<in> (edge_rel G)\<^sup>* \<and> terminal G t \<and> terminal G y
                 \<and> start_of G t < start_of G y"
      then obtain t where "(f, t) \<in> (edge_rel G)\<^sup>*" "terminal G t" "start_of G t < start_of G y"
        by auto
      with tz show ?thesis by (intro disjI2 exI[of _ t]) auto
    qed
  qed
qed

lemma enriched_reach_ids:
  assumes ct: "constituency_tree G" and ok: "deps_ok G ds" and f: "f < length (nodes G)"
  shows "(edge_rel (with_deps G ds))\<^sup>* `` {f} \<subseteq> set (node_ids (with_deps G ds))"
proof
  fix x assume "x \<in> (edge_rel (with_deps G ds))\<^sup>* `` {f}"
  then have "(f, x) \<in> (edge_rel (with_deps G ds))\<^sup>*" by simp
  from enriched_reach[OF ct ok this] have "x < length (nodes G)"
    using ct_rtrancl_bound[OF ct _ f] ct_terminal[OF ct] by auto
  then show "x \<in> set (node_ids (with_deps G ds))"
    using ct_ids[OF ct] by (simp add: with_deps_simps)
qed

lemma cands_mono: "cands G f s \<subseteq> cands (with_deps G ds) f s"
proof -
  have "(edge_rel G)\<^sup>* \<subseteq> (edge_rel (with_deps G ds))\<^sup>*"
    by (rule rtrancl_mono) (simp add: with_deps_simps)
  then show ?thesis by (auto simp: cands_def with_deps_simps)
qed

lemma cands_extra:
  assumes ct: "constituency_tree G" and ok: "deps_ok G ds"
    and x: "x \<in> cands (with_deps G ds) f s"
  shows "\<exists>t\<in>cands G f s. start_of G t \<le> start_of G x"
proof -
  from x have r: "(f, x) \<in> (edge_rel (with_deps G ds))\<^sup>*"
    and tx: "terminal G x" "start_of G x < s"
    by (auto simp: cands_def with_deps_simps)
  from enriched_reach[OF ct ok r] show ?thesis
  proof
    assume "(f, x) \<in> (edge_rel G)\<^sup>*"
    with tx have "x \<in> cands G f s" by (simp add: cands_def)
    then show ?thesis by auto
  next
    assume "\<exists>t. (f, t) \<in> (edge_rel G)\<^sup>* \<and> terminal G t \<and> terminal G x
               \<and> start_of G t < start_of G x"
    then obtain t where t: "(f, t) \<in> (edge_rel G)\<^sup>*" "terminal G t" "start_of G t < start_of G x"
      by auto
    with tx have "t \<in> cands G f s" by (simp add: cands_def)
    with t(3) show ?thesis by (intro bexI[of _ t]) auto
  qed
qed

lemma getCandidate_enriched:
  assumes ct: "constituency_tree G" and ok: "deps_ok G ds" and f: "f < length (nodes G)"
  shows "getCandidate (with_deps G ds) f s = getCandidate G f s"
proof -
  let ?G = "with_deps G ds"
  have f0: "f \<in> set (node_ids G)" using ct_ids[OF ct] f by simp
  have f1: "f \<in> set (node_ids ?G)" using f0 by (simp add: with_deps_simps)
  have c0: "(edge_rel G)\<^sup>* `` {f} \<subseteq> set (node_ids G)"
    using enriched_reach_ids[OF ct _ f, of "[]"] by (simp add: with_deps_Nil deps_ok_def)
  note s0 = getCandidate_spec[OF f0 c0, of s]
  note s1 = getCandidate_spec[OF f1 enriched_reach_ids[OF ct ok f], of s]
  show ?thesis
  proof (cases "cands G f s = {}")
    case True
    then have "cands ?G f s = {}" using cands_extra[OF ct ok] by blast
    with True s0 s1 show ?thesis by simp
  next
    case False
    then have ne: "cands ?G f s \<noteq> {}" using cands_mono[of G f s ds] by auto
    from s0 False obtain h0 where h0: "getCandidate G f s = Inr (Some h0)" "h0 \<in> cands G f s"
      "\<forall>t\<in>cands G f s. start_of G h0 \<le> start_of G t" by auto
    from s1 ne obtain h1 where h1: "getCandidate ?G f s = Inr (Some h1)" "h1 \<in> cands ?G f s"
      "\<forall>t\<in>cands ?G f s. start_of G h1 \<le> start_of G t" by (auto simp: with_deps_simps)
    from cands_extra[OF ct ok h1(2)] obtain t where
      t: "t \<in> cands G f s" "start_of G t \<le> start_of G h1" by auto
    have "start_of G h0 \<le> start_of G h1" using h0(3) t by force
    moreover have "start_of G h1 \<le> start_of G h0" using h1(3) h0(2) cands_mono[of G f s ds] by auto
    ultimately have "start_of G h0 = start_of G h1" by simp
    moreover have "terminal G h0" "terminal G h1"
      using h0(2) h1(2) by (auto simp: cands_def with_deps_simps)
    ultimately have "h0 = h1" using ct_start_inj[OF ct] by blast
    with h0(1) h1(1) show ?thesis by simp
  qed
qed

subsection \<open>Incoming edges\<close>

lemma in_edges_rel: "(u, w) \<in> set (in_edges G v) \<longleftrightarrow> (u, w) \<in> edge_rel G \<and> w = v"
  by (auto simp: in_edges_def edge_rel_def)

lemma in_edges_Nil_iff: "in_edges G v = [] \<longleftrightarrow> (\<forall>u. (u, v) \<notin> edge_rel G)"
  by (force simp: in_edges_def edge_rel_def filter_empty_conv)

lemma in_edges_memD: "e \<in> set (in_edges G v) \<Longrightarrow> \<exists>u. e = (u, v) \<and> (u, v) \<in> edge_rel G"
  by (auto simp: in_edges_def edge_rel_def)

lemma ct_in_edges_root: "constituency_tree G \<Longrightarrow> in_edges G 0 = []"
proof -
  assume ct: "constituency_tree G"
  have "(u, 0) \<notin> edge_rel G" for u
    using ct_edge(3)[OF ct, of u 0] by auto
  then show ?thesis by (simp add: in_edges_Nil_iff)
qed

lemma ct_in_edges_outside: "constituency_tree G \<Longrightarrow> length (nodes G) \<le> v \<Longrightarrow> in_edges G v = []"
proof -
  assume ct: "constituency_tree G" and le: "length (nodes G) \<le> v"
  have "(u, v) \<notin> edge_rel G" for u
    using ct_edge(2)[OF ct, of u v] le by auto
  then show ?thesis by (simp add: in_edges_Nil_iff)
qed

lemma length_filter_upt_eq:
  "length (filter (\<lambda>w. w = v) [a..<b]) = (if a \<le> v \<and> v < b then 1 else 0)"
  by (induction b) auto

lemma ct_in_edges:
  assumes ct: "constituency_tree G" and v: "1 \<le> v" "v < length (nodes G)"
  shows "\<exists>u. in_edges G v = [(u, v)] \<and> (u, v) \<in> edge_rel G \<and> u < v"
proof -
  from ct have m: "map snd (map fst (edges G)) = [1..<length (nodes G)]"
    by (simp add: constituency_tree_def)
  have "length (filter (\<lambda>w. w = v) (map snd (map fst (edges G)))) = 1"
    unfolding m using v by (simp add: length_filter_upt_eq)
  moreover have "map snd (in_edges G v) = filter (\<lambda>w. w = v) (map snd (map fst (edges G)))"
    by (simp add: in_edges_def filter_map comp_def case_prod_beta)
  ultimately have "length (in_edges G v) = 1" by (metis length_map)
  then obtain e where e: "in_edges G v = [e]" by (cases "in_edges G v") auto
  then have "e \<in> set (in_edges G v)" by simp
  then obtain u where "e = (u, v)" "(u, v) \<in> edge_rel G"
    by (auto dest: in_edges_memD)
  with e ct_edge(1)[OF ct this(2)] show ?thesis by auto
qed

lemma in_edges_with_deps:
  "in_edges (with_deps G ds) v = in_edges G v @ filter (\<lambda>(u, w). w = v) ds"
  by (simp add: in_edges_def with_deps_def comp_def)

subsection \<open>The root of the dependency tree\<close>

lemma getRoot_spec:
  assumes d: "distinct (node_ids G)" and r: "getRoot G = Inr r"
  shows "terminal G r" and "\<And>t. terminal G t \<Longrightarrow> start_of G r \<le> start_of G t"
proof -
  define nodes1 where "nodes1 = filter (\<lambda>(n, a). is_terminal a) (nodes G)"
  define m where "m = hd (sort_key (\<lambda>(n, a). start a) nodes1)"
  have ne: "nodes1 \<noteq> []"
    using r by (auto simp: getRoot_def nodes1_def Let_def)
  then have "sort_key (\<lambda>(n, a). start a) nodes1 \<noteq> []"
    by (auto dest: arg_cong[where f = length])
  with r have rm: "r = fst m"
    by (auto simp: getRoot_def nodes1_def[symmetric] m_def Let_def split: list.splits)
  from hd_sort_key_min[OF ne, of "\<lambda>(n, a). start a"]
  have m_in: "m \<in> set nodes1"
    and m_min: "\<forall>y\<in>set nodes1. start (snd m) \<le> start (snd y)"
    by (auto simp: m_def case_prod_beta)
  have attrs: "node_attrs G n = Some a" if "(n, a) \<in> set nodes1" for n a
    using that node_attrs_Some[OF d] by (auto simp: nodes1_def)
  from m_in attrs[of "fst m" "snd m"] have am: "node_attrs G r = Some (snd m)" "is_terminal (snd m)"
    by (auto simp: rm nodes1_def)
  then show "terminal G r" by (simp add: terminal_def)
  fix t assume "terminal G t"
  then obtain a where a: "node_attrs G t = Some a" "is_terminal a"
    by (auto simp: terminal_def split: option.splits)
  then have "(t, a) \<in> set nodes1"
    by (auto simp: nodes1_def node_attrs_def dest: map_of_SomeD)
  with m_min have "start (snd m) \<le> start a" by force
  with am a show "start_of G r \<le> start_of G t" by (simp add: start_of_def)
qed

lemma getRoot_ex:
  "terminals G \<noteq> [] \<Longrightarrow> \<exists>r. getRoot G = Inr r"
proof -
  assume "terminals G \<noteq> []"
  then have ne: "filter (\<lambda>(n, a). is_terminal a) (nodes G) \<noteq> []" by (auto simp: terminals_def)
  then have "sort_key (\<lambda>(n, a). start a) (filter (\<lambda>(n, a). is_terminal a) (nodes G)) \<noteq> []"
    by (auto dest: arg_cong[where f = length])
  then show ?thesis by (auto simp: getRoot_def Let_def split: list.splits)
qed

lemma getRoot_with_deps: "getRoot (with_deps G ds) = getRoot G"
  by (simp add: getRoot_def with_deps_simps)

lemma ct_root_less:
  assumes ct: "constituency_tree G" and r: "getRoot G = Inr r" and n: "terminal G n" "n \<noteq> r"
  shows "start_of G r < start_of G n"
proof -
  note rs = getRoot_spec[OF ct_distinct_ids[OF ct] r]
  have "start_of G r \<le> start_of G n" using rs(2)[OF n(1)] .
  moreover have "start_of G r \<noteq> start_of G n" using ct_start_inj[OF ct rs(1) n(1)] n(2) by auto
  ultimately show ?thesis by simp
qed

subsection \<open>The ancestor walk\<close>

lemma deps_filter_nonterminal:
  assumes "deps_ok G ds" "\<not> terminal G v"
  shows "filter (\<lambda>(u, w). w = v) ds = []"
proof -
  have "w \<noteq> v" if "(u, w) \<in> set ds" for u w
    using assms that by (auto simp: deps_ok_def)
  then show ?thesis by (auto simp: filter_empty_conv)
qed

lemma selectHead_loop_enriched:
  assumes ct: "constituency_tree G" and ok: "deps_ok G ds"
  shows "f < length (nodes G) \<Longrightarrow> selectHead_loop (with_deps G ds) n f = selectHead_loop G n f"
proof (induction f rule: less_induct)
  case (less f)
  note gc = getCandidate_enriched[OF ct ok less.prems]
  show ?case
  proof (cases "f = 0")
    case True
    have "filter (\<lambda>(u, w). w = 0) ds = []"
      using ct_terminal[OF ct, of 0] by (intro deps_filter_nonterminal[OF ok]) simp
    then have "in_edges (with_deps G ds) 0 = []" "in_edges G 0 = []"
      using ct_in_edges_root[OF ct] by (simp_all add: in_edges_with_deps)
    then show ?thesis unfolding True
      by (subst selectHead_loop.simps[of "with_deps G ds" n 0], subst selectHead_loop.simps[of G n 0])
        (simp add: gc[unfolded True] with_deps_simps cong: sum.case_cong option.case_cong)
  next
    case False
    with ct_in_edges[OF ct, of f] less.prems obtain u where
      u: "in_edges G f = [(u, f)]" "u < f" by auto
    then have ih: "selectHead_loop (with_deps G ds) n u = selectHead_loop G n u"
      using less.IH[of u] less.prems by simp
    show ?thesis
      by (subst selectHead_loop.simps[of "with_deps G ds" n f], subst selectHead_loop.simps[of G n f])
        (simp add: gc with_deps_simps in_edges_with_deps u(1) ih cong: sum.case_cong option.case_cong)
  qed
qed

lemma selectHead_enriched:
  assumes ct: "constituency_tree G" and ok: "deps_ok G ds"
  shows "selectHead (with_deps G ds) n = selectHead G n"
proof -
  consider "n = 0" | "length (nodes G) \<le> n" | "1 \<le> n" "n < length (nodes G)" by linarith
  then show ?thesis
  proof cases
    case 1
    have "filter (\<lambda>(u, w). w = 0) ds = []"
      using ct_terminal[OF ct, of 0] by (intro deps_filter_nonterminal[OF ok]) simp
    then show ?thesis
      using ct_in_edges_root[OF ct] by (simp add: selectHead_def in_edges_with_deps 1)
  next
    case 2
    have "filter (\<lambda>(u, w). w = n) ds = []"
      using ct_terminal[OF ct, of n] 2 by (intro deps_filter_nonterminal[OF ok]) simp
    then show ?thesis
      using ct_in_edges_outside[OF ct 2] by (simp add: selectHead_def in_edges_with_deps)
  next
    case 3
    with ct_in_edges[OF ct, of n] obtain u where u: "in_edges G n = [(u, n)]" "u < n" by auto
    with 3 have "u < length (nodes G)" by simp
    from selectHead_loop_enriched[OF ct ok this] show ?thesis
      by (simp add: selectHead_def in_edges_with_deps u(1))
  qed
qed

lemma ct_reach_ids:
  assumes ct: "constituency_tree G" and f: "f < length (nodes G)"
  shows "(edge_rel G)\<^sup>* `` {f} \<subseteq> set (node_ids G)"
  using enriched_reach_ids[OF ct _ f, of "[]"] by (simp add: with_deps_Nil deps_ok_def)

lemma selectHead_loop_correct:
  assumes ct: "constituency_tree G" and r: "getRoot G = Inr r"
    and n: "terminal G n" "n \<noteq> r"
  shows "(f, n) \<in> (edge_rel G)\<^sup>+ \<Longrightarrow>
         (\<forall>q. (f, q) \<in> (edge_rel G)\<^sup>+ \<and> (q, n) \<in> (edge_rel G)\<^sup>+ \<longrightarrow> cands G q (start_of G n) = {}) \<Longrightarrow>
         \<exists>h p. selectHead_loop G n f = Some (Inr h) \<and> is_head G n p h"
proof (induction f rule: less_induct)
  case (less f)
  let ?s = "start_of G n"
  have fN: "f < length (nodes G)" using ct_trancl_less[OF ct less.prems(1)] by simp
  have f0: "f \<in> set (node_ids G)" using ct_ids[OF ct] fN by simp
  have nN: "n \<in> set (node_ids G)" using ct_terminal[OF ct, of n] n(1) ct_ids[OF ct] by simp
  then obtain a where a: "attr_of G n = Inr a" "start a = ?s"
    using node_attrs_in[of n G] by (auto simp: attr_of_def start_of_def)
  note spec = getCandidate_spec[OF f0 ct_reach_ids[OF ct fN], of ?s]
  show ?case
  proof (cases "cands G f ?s = {}")
    case False
    with spec obtain h where h: "getCandidate G f ?s = Inr (Some h)" "h \<in> cands G f ?s"
      "\<forall>t\<in>cands G f ?s. start_of G h \<le> start_of G t" by auto
    have "selectHead_loop G n f = Some (Inr h)"
      by (subst selectHead_loop.simps) (simp add: a h(1))
    moreover have "is_head G n f h"
      using less.prems h by (simp add: is_head_def)
    ultimately show ?thesis by blast
  next
    case True
    with spec have gc: "getCandidate G f ?s = Inr None" by simp
    have rs: "terminal G r" using getRoot_spec[OF ct_distinct_ids[OF ct] r] by simp
    have "r < length (nodes G)" using ct_terminal[OF ct, of r] rs by simp
    then have "r \<in> cands G 0 ?s"
      using ct_root_reaches[OF ct] ct_root_less[OF ct r n] rs by (simp add: cands_def)
    have "f \<noteq> 0"
    proof
      assume "f = 0"
      with True \<open>r \<in> cands G 0 ?s\<close> show False by simp
    qed
    with ct_in_edges[OF ct, of f] fN obtain u where
      u: "in_edges G f = [(u, f)]" "(u, f) \<in> edge_rel G" "u < f" by auto
    have un: "(u, n) \<in> (edge_rel G)\<^sup>+" using u(2) less.prems(1) by auto
    have near: "cands G q ?s = {}"
      if q: "(u, q) \<in> (edge_rel G)\<^sup>+" "(q, n) \<in> (edge_rel G)\<^sup>+" for q
    proof -
      from ct_anc_comparable[OF ct q(2) less.prems(1)]
      consider "q = f" | "(q, f) \<in> (edge_rel G)\<^sup>+" | "(f, q) \<in> (edge_rel G)\<^sup>+" by auto
      then show ?thesis
      proof cases
        case 1
        with True show ?thesis by simp
      next
        case 2
        then obtain c where c: "(q, c) \<in> (edge_rel G)\<^sup>*" "(c, f) \<in> edge_rel G"
          by (auto dest: tranclD2)
        from ct_unique_parent[OF ct c(2) u(2)] have "c = u" .
        with c(1) q(1) have "(u, u) \<in> (edge_rel G)\<^sup>+" by auto
        with ct_trancl_less[OF ct this] show ?thesis by simp
      next
        case 3
        with less.prems(2) q(2) show ?thesis by blast
      qed
    qed
    from less.IH[OF u(3) un] near obtain h p where
      "selectHead_loop G n u = Some (Inr h)" "is_head G n p h" by blast
    moreover have "selectHead_loop G n f = selectHead_loop G n u"
      by (subst selectHead_loop.simps) (simp add: a gc u(1))
    ultimately show ?thesis by auto
  qed
qed

lemma selectHead_correct0:
  assumes ct: "constituency_tree G" and r: "getRoot G = Inr r"
    and n: "terminal G n" "n \<noteq> r"
  shows "\<exists>h p. selectHead G n = Some (Inr h) \<and> is_head G n p h"
proof -
  have nN: "1 \<le> n" "n < length (nodes G)" using ct_terminal[OF ct, of n] n(1) by auto
  with ct_in_edges[OF ct, of n] obtain u where
    u: "in_edges G n = [(u, n)]" "(u, n) \<in> edge_rel G" by auto
  have "\<not> ((u, q) \<in> (edge_rel G)\<^sup>+ \<and> (q, n) \<in> (edge_rel G)\<^sup>+)" for q
  proof
    assume q: "(u, q) \<in> (edge_rel G)\<^sup>+ \<and> (q, n) \<in> (edge_rel G)\<^sup>+"
    then obtain c where c: "(q, c) \<in> (edge_rel G)\<^sup>*" "(c, n) \<in> edge_rel G"
      by (auto dest: tranclD2)
    from ct_unique_parent[OF ct c(2) u(2)] have "c = u" .
    with c(1) q have "(u, u) \<in> (edge_rel G)\<^sup>+" by auto
    with ct_trancl_less[OF ct this] show False by simp
  qed
  then have "\<forall>q. (u, q) \<in> (edge_rel G)\<^sup>+ \<and> (q, n) \<in> (edge_rel G)\<^sup>+ \<longrightarrow> cands G q (start_of G n) = {}"
    by blast
  moreover have "(u, n) \<in> (edge_rel G)\<^sup>+" using u(2) by auto
  ultimately have "\<exists>h p. selectHead_loop G n u = Some (Inr h) \<and> is_head G n p h"
    by (intro selectHead_loop_correct[OF ct r n])
  then show ?thesis by (simp add: selectHead_def u(1))
qed

lemma is_head_unique:
  assumes ct: "constituency_tree G" and a: "is_head G n p h" and b: "is_head G n p' h'"
  shows "p = p' \<and> h = h'"
proof -
  let ?s = "start_of G n"
  from a b have pn: "(p, n) \<in> (edge_rel G)\<^sup>+" "(p', n) \<in> (edge_rel G)\<^sup>+"
    and ne: "cands G p ?s \<noteq> {}" "cands G p' ?s \<noteq> {}"
    by (auto simp: is_head_def)
  from ct_anc_comparable[OF ct pn] have "p = p'"
  proof (elim disjE)
    assume "(p, p') \<in> (edge_rel G)\<^sup>+"
    with a pn(2) ne(2) show ?thesis by (auto simp: is_head_def)
  next
    assume "(p', p) \<in> (edge_rel G)\<^sup>+"
    with b pn(1) ne(1) show ?thesis by (auto simp: is_head_def)
  qed
  moreover from a b this have "start_of G h = start_of G h'"
    by (auto simp: is_head_def intro: antisym)
  moreover from a b have "terminal G h" "terminal G h'" by (auto simp: is_head_def cands_def)
  ultimately show ?thesis using ct_start_inj[OF ct] by blast
qed

lemma selectHead_loop_root:
  assumes ct: "constituency_tree G" and r: "getRoot G = Inr r"
  shows "f < length (nodes G) \<Longrightarrow> selectHead_loop G r f = Some (Inl IndexError)"
proof (induction f rule: less_induct)
  case (less f)
  note rs = getRoot_spec[OF ct_distinct_ids[OF ct] r]
  have f0: "f \<in> set (node_ids G)" using ct_ids[OF ct] less.prems by simp
  have "r \<in> set (node_ids G)" using ct_terminal[OF ct, of r] rs(1) ct_ids[OF ct] by simp
  then obtain a where a: "attr_of G r = Inr a" "start a = start_of G r"
    using node_attrs_in[of r G] by (auto simp: attr_of_def start_of_def)
  have "cands G f (start_of G r) = {}"
    using rs(2) by (fastforce simp: cands_def)
  with getCandidate_spec[OF f0 ct_reach_ids[OF ct less.prems], of "start_of G r"]
  have gc: "getCandidate G f (start_of G r) = Inr None" by simp
  show ?case
  proof (cases "f = 0")
    case True
    show ?thesis
      by (subst selectHead_loop.simps) (simp add: a gc[unfolded True] True ct_in_edges_root[OF ct])
  next
    case False
    with ct_in_edges[OF ct, of f] less.prems obtain u where
      u: "in_edges G f = [(u, f)]" "u < f" by auto
    with less.IH[of u] less.prems have "selectHead_loop G r u = Some (Inl IndexError)" by simp
    then show ?thesis
      by (subst selectHead_loop.simps) (simp add: a gc u(1))
  qed
qed

text \<open>
  C3.  In a constituency tree, for every terminal \<open>n\<close> other than the leftmost one,
  \<^verbatim>\<open>selectHead\<close> returns a terminal \<open>h\<close> whose start is strictly smaller than that of \<open>n\<close>;
  \<open>h\<close> is the terminal of smallest start among the terminals that precede \<open>n\<close> and are
  reachable from \<open>p\<close>, where \<open>p\<close> is the nearest ancestor of \<open>n\<close> from which such a terminal is
  reachable.  The result is a function of the graph and the node alone, so a repeated call
  returns the same node.
\<close>

theorem selectHead_head:
  assumes "constituency_tree G" and "getRoot G = Inr r" and "terminal G n" and "n \<noteq> r"
  shows "\<exists>h p. selectHead G n = Some (Inr h) \<and> terminal G h \<and> start_of G h < start_of G n
              \<and> is_head G n p h"
proof -
  from selectHead_correct0[OF assms] obtain h p where
    hp: "selectHead G n = Some (Inr h)" "is_head G n p h" by blast
  then have "terminal G h" "start_of G h < start_of G n"
    by (auto simp: is_head_def cands_def)
  with hp show ?thesis by blast
qed

lemma example_graph_ct: "constituency_tree example_graph"
  by code_simp

lemma example_graph_root: "getRoot example_graph = Inr 2"
  by code_simp

theorem selectHead_head_witness:
  "\<exists>h p. selectHead example_graph 6 = Some (Inr h) \<and> terminal example_graph h
          \<and> start_of example_graph h < start_of example_graph 6 \<and> is_head example_graph 6 p h"
proof -
  have t: "terminal example_graph 6" by code_simp
  have n: "(6::nat) \<noteq> 2" by simp
  show ?thesis by (rule selectHead_head[OF example_graph_ct example_graph_root t n])
qed

text \<open>
  C9.  In a constituency tree, \<^verbatim>\<open>selectHead\<close> called on the leftmost terminal returns no head:
  no ancestor has a candidate, the walk arrives at node 0 and the first element of the empty
  list of its incoming edges is an \<^verbatim>\<open>IndexError\<close>.  \<^verbatim>\<open>enrichAstWithDeps\<close> calls \<^verbatim>\<open>selectHead\<close>
  on the nodes of \<open>other_terminals\<close> only, and the leftmost terminal is not among them.
\<close>

theorem selectHead_leftmost_fails:
  assumes "constituency_tree G" and "getRoot G = Inr r"
  shows "selectHead G r = Some (Inl IndexError) \<and> r \<notin> set (other_terminals G r)
         \<and> enrichAstWithDeps G = enrich_loop G (other_terminals G r)"
proof -
  note rs = getRoot_spec[OF ct_distinct_ids[OF assms(1)] assms(2)]
  have "1 \<le> r" "r < length (nodes G)" using ct_terminal[OF assms(1), of r] rs(1) by auto
  with ct_in_edges[OF assms(1), of r] obtain u where u: "in_edges G r = [(u, r)]" "u < r" by auto
  with \<open>r < length (nodes G)\<close> have "u < length (nodes G)" by simp
  from selectHead_loop_root[OF assms this] have "selectHead G r = Some (Inl IndexError)"
    by (simp add: selectHead_def u(1))
  moreover have "r \<notin> set (other_terminals G r)" by (auto simp: other_terminals_def)
  ultimately show ?thesis using assms(2) by (simp add: enrichAstWithDeps_def)
qed

theorem selectHead_leftmost_fails_witness:
  "selectHead example_graph 2 = Some (Inl IndexError) \<and> 2 \<notin> set (other_terminals example_graph 2)
     \<and> enrichAstWithDeps example_graph = enrich_loop example_graph (other_terminals example_graph 2)"
  by (rule selectHead_leftmost_fails[OF example_graph_ct example_graph_root])

subsection \<open>The enrichment loop\<close>

lemma head_of_props:
  assumes ct: "constituency_tree G" and r: "getRoot G = Inr r"
    and n: "terminal G n" "n \<noteq> r"
  shows "selectHead G n = Some (Inr (head_of G n))"
    and "terminal G (head_of G n)"
    and "start_of G (head_of G n) < start_of G n"
    and "\<exists>p. is_head G n p (head_of G n)"
proof -
  from selectHead_correct0[OF ct r n] obtain h p where
    hp: "selectHead G n = Some (Inr h)" "is_head G n p h" by blast
  then have h: "head_of G n = h" by (simp add: head_of_def)
  from hp show "selectHead G n = Some (Inr (head_of G n))" by (simp add: h)
  from hp show "terminal G (head_of G n)" "start_of G (head_of G n) < start_of G n"
    by (auto simp: h is_head_def cands_def)
  from hp show "\<exists>p. is_head G n p (head_of G n)" by (auto simp: h)
qed

lemma add_edge_with_deps:
  assumes ct: "constituency_tree G" and h: "terminal G h" and n: "n \<notin> snd ` set ds"
  shows "add_edge (with_deps G ds) h n dependency_data upd = with_deps G (ds @ [(h, n)])"
proof -
  have "(h, n) \<notin> edge_rel G" using ct_terminal[OF ct, of h] h by auto
  moreover have "(h, n) \<notin> set ds" using n by force
  ultimately have "(h, n) \<notin> set (map fst (edges (with_deps G ds)))"
    using with_deps_simps(7)[of G ds] by (simp add: edge_rel_def)
  then show ?thesis by (simp add: add_edge_def with_deps_def)
qed

lemma enrich_loop_spec:
  assumes ct: "constituency_tree G" and r: "getRoot G = Inr r"
  shows "deps_ok G ds \<Longrightarrow> distinct ns \<Longrightarrow> \<forall>n\<in>set ns. terminal G n \<and> n \<noteq> r \<Longrightarrow>
         set ns \<inter> snd ` set ds = {} \<Longrightarrow>
         enrich_loop (with_deps G ds) ns = Some (Inr (with_deps G (ds @ dep_list G ns)))"
proof (induction ns arbitrary: ds)
  case Nil
  then show ?case by (simp add: dep_list_def)
next
  case (Cons n ns)
  from Cons.prems have n: "terminal G n" "n \<noteq> r" by auto
  note hp = head_of_props[OF ct r n]
  have sh: "selectHead (with_deps G ds) n = Some (Inr (head_of G n))"
    using selectHead_enriched[OF ct Cons.prems(1)] hp(1) by simp
  have nd: "n \<notin> snd ` set ds" using Cons.prems(4) by auto
  have ae: "add_edge (with_deps G ds) (head_of G n) n dependency_data
              (\<lambda>d. d\<lparr>label := Some ''dependency''\<rparr>) = with_deps G (ds @ [(head_of G n, n)])"
    by (rule add_edge_with_deps[OF ct hp(2) nd])
  have ok: "deps_ok G (ds @ [(head_of G n, n)])"
    using Cons.prems(1) hp n by (auto simp: deps_ok_def)
  have disj: "set ns \<inter> snd ` set (ds @ [(head_of G n, n)]) = {}"
    using Cons.prems(2,4) by auto
  have "enrich_loop (with_deps G (ds @ [(head_of G n, n)])) ns
          = Some (Inr (with_deps G ((ds @ [(head_of G n, n)]) @ dep_list G ns)))"
    using Cons.IH[OF ok _ _ disj] Cons.prems(2,3) by simp
  then show ?case by (simp add: sh ae dep_list_def)
qed

lemma other_terminals_props:
  assumes d: "distinct (node_ids G)"
  shows "distinct (other_terminals G r)"
    and "set (other_terminals G r) = {n. terminal G n \<and> n \<noteq> r}"
proof -
  have "distinct (map fst (filter (\<lambda>(n, a). r \<noteq> n \<and> is_terminal a) (nodes G)))"
    using d unfolding node_ids_def by (rule distinct_map_filter)
  then show "distinct (other_terminals G r)" by (simp add: other_terminals_def)
  have "filter (\<lambda>(n, a). r \<noteq> n \<and> is_terminal a) xs
          = filter (\<lambda>(n, a). r \<noteq> n) (filter (\<lambda>(n, a). is_terminal a) xs)"
    for xs :: "(nat \<times> attrs) list"
    by (induction xs) auto
  then have "other_terminals G r = filter (\<lambda>n. r \<noteq> n) (terminals G)"
    by (simp add: other_terminals_def terminals_def filter_map comp_def case_prod_beta)
  then show "set (other_terminals G r) = {n. terminal G n \<and> n \<noteq> r}"
    using set_terminals[OF d] by auto
qed

lemma enrichAstWithDeps_spec:
  assumes ct: "constituency_tree G" and r: "getRoot G = Inr r"
  shows "enrichAstWithDeps G = Some (Inr (with_deps G (dep_list G (other_terminals G r))))"
    and "deps_ok G (dep_list G (other_terminals G r))"
proof -
  note ot = other_terminals_props[OF ct_distinct_ids[OF ct], of r]
  have "enrich_loop (with_deps G []) (other_terminals G r)
          = Some (Inr (with_deps G ([] @ dep_list G (other_terminals G r))))"
    using ot by (intro enrich_loop_spec[OF ct r]) (auto simp: deps_ok_def)
  then show "enrichAstWithDeps G = Some (Inr (with_deps G (dep_list G (other_terminals G r))))"
    by (simp add: enrichAstWithDeps_def r with_deps_Nil)
  show "deps_ok G (dep_list G (other_terminals G r))"
    using ot(2) head_of_props[OF ct r] by (auto simp: deps_ok_def dep_list_def)
qed

subsection \<open>The dependency tree\<close>

lemma mset_concat_filter_partition:
  "distinct ids \<Longrightarrow>
     mset (concat (map (\<lambda>u. filter (\<lambda>e. fst e = u) ds) ids))
       = filter_mset (\<lambda>e. fst e \<in> set ids) (mset ds)"
proof (induction ids)
  case Nil
  then show ?case by simp
next
  case (Cons u ids)
  have "filter_mset (\<lambda>e. fst e = u) (mset ds) + filter_mset (\<lambda>e. fst e \<in> set ids) (mset ds)
          = filter_mset (\<lambda>e. fst e \<in> set (u # ids)) (mset ds)"
    using Cons.prems by (induction ds) auto
  with Cons show ?case by simp
qed

lemma getDependencyTree_with_deps:
  assumes ct: "constituency_tree G" and ok: "deps_ok G ds"
  shows "nodes (getDependencyTree (with_deps G ds)) = filter (\<lambda>(n, a). is_terminal a) (nodes G)"
    and "map fst (edges (getDependencyTree (with_deps G ds)))
           = concat (map (\<lambda>u. filter (\<lambda>e. fst e = u) ds) (terminals G))"
    and "\<forall>(e, d)\<in>set (edges (getDependencyTree (with_deps G ds))). d = dependency_data"
proof -
  let ?ids = "terminals G"
  show "nodes (getDependencyTree (with_deps G ds)) = filter (\<lambda>(n, a). is_terminal a) (nodes G)"
    by (simp add: getDependencyTree_def with_deps_simps Let_def)
  have st: "set ?ids = {t. terminal G t}" by (rule set_terminals[OF ct_distinct_ids[OF ct]])
  have base: "filter (\<lambda>((a, b), d). a = u \<and> b \<in> set ?ids \<and> filter_edge d) (edges G) = []"
    if "u \<in> set ?ids" for u
  proof -
    have "terminal G u" using that st by simp
    then have "(u, b) \<notin> edge_rel G" for b using ct_terminal[OF ct, of u] by auto
    then show ?thesis by (force simp: filter_empty_conv edge_rel_def)
  qed
  have deps: "filter (\<lambda>((a, b), d). a = u \<and> b \<in> set ?ids \<and> filter_edge d)
                (map (\<lambda>e. (e, dependency_data)) ds)
              = map (\<lambda>e. (e, dependency_data)) (filter (\<lambda>e. fst e = u) ds)" for u
  proof -
    have fe: "filter_edge dependency_data" by (simp add: filter_edge_def dependency_data_def)
    have gen: "filter (\<lambda>((a, b), d). a = u \<and> b \<in> set ?ids \<and> filter_edge d)
                (map (\<lambda>e. (e, dependency_data)) es)
              = map (\<lambda>e. (e, dependency_data)) (filter (\<lambda>e. fst e = u) es)"
      if "\<forall>e\<in>set es. snd e \<in> set ?ids" for es
      using that by (induction es) (auto simp: fe)
    have "\<forall>e\<in>set ds. snd e \<in> set ?ids"
      using ok st by (auto simp: deps_ok_def)
    then show ?thesis by (rule gen)
  qed
  have ed: "edges (getDependencyTree (with_deps G ds))
              = concat (map (\<lambda>u. map (\<lambda>e. (e, dependency_data)) (filter (\<lambda>e. fst e = u) ds)) ?ids)"
  proof -
    have "map (\<lambda>u. filter (\<lambda>((a, b), d). a = u \<and> b \<in> set ?ids \<and> filter_edge d)
                 (edges G @ map (\<lambda>e. (e, dependency_data)) ds)) ?ids
          = map (\<lambda>u. map (\<lambda>e. (e, dependency_data)) (filter (\<lambda>e. fst e = u) ds)) ?ids"
      by (rule map_cong) (simp_all add: base deps)
    moreover have "edges (getDependencyTree (with_deps G ds))
          = concat (map (\<lambda>u. filter (\<lambda>((a, b), d). a = u \<and> b \<in> set ?ids \<and> filter_edge d)
                 (edges G @ map (\<lambda>e. (e, dependency_data)) ds)) ?ids)"
      unfolding getDependencyTree_def Let_def terminals_def with_deps_def by simp
    ultimately show ?thesis by (simp only:)
  qed
  show "map fst (edges (getDependencyTree (with_deps G ds)))
           = concat (map (\<lambda>u. filter (\<lambda>e. fst e = u) ds) (terminals G))"
    unfolding ed by (simp add: map_concat comp_def)
  show "\<forall>(e, d)\<in>set (edges (getDependencyTree (with_deps G ds))). d = dependency_data"
    unfolding ed by auto
qed

lemma dep_tree_edges_mset:
  assumes ct: "constituency_tree G" and ok: "deps_ok G ds"
  shows "mset (map fst (edges (getDependencyTree (with_deps G ds)))) = mset ds"
proof -
  have d: "distinct (terminals G)"
    using ct_distinct_ids[OF ct] unfolding terminals_def node_ids_def by (rule distinct_map_filter)
  have "fst e \<in> set (terminals G)" if "e \<in> set ds" for e
    using ok that set_terminals[OF ct_distinct_ids[OF ct]] by (cases e) (auto simp: deps_ok_def)
  then have "filter_mset (\<lambda>e. fst e \<in> set (terminals G)) (mset ds) = mset ds"
    by (simp add: filter_mset_eq_conv)
  then show ?thesis
    by (simp add: getDependencyTree_with_deps(2)[OF ct ok] mset_concat_filter_partition[OF d])
qed

lemma singleton_mset_list: "mset xs = {#x#} \<Longrightarrow> xs = [x]"
proof -
  assume a: "mset xs = {#x#}"
  then have "length xs = 1" by (metis size_mset size_single)
  then obtain y where "xs = [y]" by (cases xs) auto
  with a show ?thesis by simp
qed

lemma in_edges_dep_tree:
  assumes ct: "constituency_tree G" and ok: "deps_ok G ds"
  shows "mset (in_edges (getDependencyTree (with_deps G ds)) n) = filter_mset (\<lambda>e. snd e = n) (mset ds)"
proof -
  have "mset (in_edges (getDependencyTree (with_deps G ds)) n)
          = filter_mset (\<lambda>e. snd e = n) (mset (map fst (edges (getDependencyTree (with_deps G ds)))))"
    by (simp add: in_edges_def case_prod_beta)
  then show ?thesis by (simp only: dep_tree_edges_mset[OF ct ok])
qed

lemma filter_dep_list:
  "distinct ns \<Longrightarrow> filter (\<lambda>e. snd e = n) (dep_list G ns) = (if n \<in> set ns then [(head_of G n, n)] else [])"
  by (induction ns) (auto simp: dep_list_def)

lemma getHeadDepTree_spec:
  assumes ct: "constituency_tree G" and r: "getRoot G = Inr r"
  defines "T \<equiv> getDependencyTree (with_deps G (dep_list G (other_terminals G r)))"
  shows "terminal G n \<Longrightarrow> n \<noteq> r \<Longrightarrow> in_edges T n = [(head_of G n, n)]"
    and "terminal G n \<Longrightarrow> n \<noteq> r \<Longrightarrow> getHeadDepTree T n = Inr (head_of G n)"
    and "getHeadDepTree T r = Inl IndexError"
proof -
  note ot = other_terminals_props[OF ct_distinct_ids[OF ct], of r]
  note ok = enrichAstWithDeps_spec(2)[OF ct r]
  have ms: "mset (in_edges T m) = mset (if m \<in> set (other_terminals G r) then [(head_of G m, m)] else [])"
    for m
  proof -
    have "filter_mset (\<lambda>e. snd e = m) (mset (dep_list G (other_terminals G r)))
            = mset (filter (\<lambda>e. snd e = m) (dep_list G (other_terminals G r)))" by simp
    then show ?thesis
      unfolding T_def in_edges_dep_tree[OF ct ok] filter_dep_list[OF ot(1)] by simp
  qed
  show ie: "in_edges T n = [(head_of G n, n)]" if "terminal G n" "n \<noteq> r"
    using ms[of n] that ot(2) by (auto intro: singleton_mset_list)
  show "getHeadDepTree T n = Inr (head_of G n)" if "terminal G n" "n \<noteq> r"
    using ie[OF that] by (simp add: getHeadDepTree_def)
  have "in_edges T r = []" using ms[of r] ot(2) by simp
  then show "getHeadDepTree T r = Inl IndexError" by (simp add: getHeadDepTree_def)
qed

subsection \<open>Walking to the root\<close>

lemma finite_below: "constituency_tree G \<Longrightarrow> finite (below G n)"
proof -
  assume ct: "constituency_tree G"
  have "below G n \<subseteq> set (terminals G)"
    using set_terminals[OF ct_distinct_ids[OF ct]] by (auto simp: below_def)
  then show ?thesis by (rule finite_subset) simp
qed

lemma length_filter_neq:
  "distinct xs \<Longrightarrow> x \<in> set xs \<Longrightarrow> length (filter (\<lambda>y. x \<noteq> y) xs) = length xs - 1"
proof (induction xs)
  case Nil
  then show ?case by simp
next
  case (Cons a xs)
  show ?case
  proof (cases "x = a")
    case True
    with Cons.prems have "filter (\<lambda>y. x \<noteq> y) xs = xs" by (auto simp: filter_id_conv)
    with True show ?thesis by simp
  next
    case False
    with Cons have "length (filter (\<lambda>y. x \<noteq> y) xs) = length xs - 1" "xs \<noteq> []" by auto
    with False show ?thesis by (cases xs) auto
  qed
qed

lemma head_walk_reaches:
  assumes ct: "constituency_tree G" and r: "getRoot G = Inr r"
  defines "T \<equiv> getDependencyTree (with_deps G (dep_list G (other_terminals G r)))"
  shows "terminal G n \<Longrightarrow> card (below G n) \<le> k \<Longrightarrow>
         \<exists>p. head_walk k T r n = Some p \<and> distinct p \<and> hd p = n \<and> last p = r
              \<and> length p \<le> Suc k
              \<and> (\<forall>m\<in>set p. terminal G m \<and> start_of G m \<le> start_of G n)"
proof (induction k arbitrary: n)
  case 0
  then have "below G n = {}" using finite_below[OF ct] by simp
  moreover have "r \<in> below G n" if "n \<noteq> r"
    using ct_root_less[OF ct r 0(1) that] getRoot_spec(1)[OF ct_distinct_ids[OF ct] r]
    by (simp add: below_def)
  ultimately have "n = r" by auto
  with 0(1) show ?case by simp
next
  case (Suc k)
  show ?case
  proof (cases "n = r")
    case True
    with Suc.prems(1) show ?thesis by simp
  next
    case False
    note hp = head_of_props[OF ct r Suc.prems(1) False]
    let ?h = "head_of G n"
    have gh: "getHeadDepTree T n = Inr ?h"
      unfolding T_def by (rule getHeadDepTree_spec(2)[OF ct r Suc.prems(1) False])
    have "below G ?h \<subset> below G n"
      using hp(2,3) by (auto simp: below_def)
    then have "card (below G ?h) < card (below G n)"
      by (rule psubset_card_mono[OF finite_below[OF ct]])
    with Suc.prems(2) have "card (below G ?h) \<le> k" by simp
    from Suc.IH[OF hp(2) this] obtain p where
      p: "head_walk k T r ?h = Some p" "distinct p" "hd p = ?h" "last p = r" "length p \<le> Suc k"
         "\<forall>m\<in>set p. terminal G m \<and> start_of G m \<le> start_of G ?h" by blast
    have pne: "p \<noteq> []" using p(1) by (cases k) (auto split: if_splits sum.splits)
    have "n \<notin> set p" using p(6) hp(3) by force
    moreover have "head_walk (Suc k) T r n = Some (n # p)"
      using False gh p(1) by simp
    ultimately show ?thesis
      using p pne hp(3) Suc.prems(1) by (intro exI[of _ "n # p"]) force
  qed
qed

text \<open>
  C2.  For every constituency tree with \<open>N \<ge> 1\<close> terminals, \<^verbatim>\<open>enrichAstWithDeps\<close> followed by
  \<^verbatim>\<open>getDependencyTree\<close> returns a graph whose nodes are exactly the terminal nodes, with
  their attributes, and which has \<open>N - 1\<close> edges; from every node, following the head edges
  arrives at the leftmost terminal within \<open>N - 1\<close> steps, and no node is visited twice.
\<close>

theorem dependency_tree_valid:
  assumes "constituency_tree G" and "terminals G \<noteq> []"
  shows "\<exists>G1 r. enrichAstWithDeps G = Some (Inr G1) \<and> getRoot G = Inr r
           \<and> nodes (getDependencyTree G1) = filter (\<lambda>(n, a). is_terminal a) (nodes G)
           \<and> length (edges (getDependencyTree G1)) = length (terminals G) - 1
           \<and> (\<forall>n\<in>set (terminals G).
                \<exists>p. head_walk (length (terminals G) - 1) (getDependencyTree G1) r n = Some p
                    \<and> hd p = n \<and> last p = r \<and> distinct p \<and> length p \<le> length (terminals G))"
proof -
  note ct = assms(1)
  from getRoot_ex[OF assms(2)] obtain r where r: "getRoot G = Inr r" by blast
  note di = ct_distinct_ids[OF ct]
  note rs = getRoot_spec[OF di r]
  let ?ds = "dep_list G (other_terminals G r)"
  let ?T = "getDependencyTree (with_deps G ?ds)"
  let ?N = "length (terminals G)"
  note es = enrichAstWithDeps_spec[OF ct r]
  have dt: "distinct (terminals G)"
    using di unfolding terminals_def node_ids_def by (rule distinct_map_filter)
  have st: "set (terminals G) = {t. terminal G t}" by (rule set_terminals[OF di])
  have "filter (\<lambda>(n, a). r \<noteq> n \<and> is_terminal a) xs
          = filter (\<lambda>(n, a). r \<noteq> n) (filter (\<lambda>(n, a). is_terminal a) xs)"
    for xs :: "(nat \<times> attrs) list"
    by (induction xs) auto
  then have "other_terminals G r = filter (\<lambda>n. r \<noteq> n) (terminals G)"
    by (simp add: other_terminals_def terminals_def filter_map comp_def case_prod_beta)
  then have lo: "length (other_terminals G r) = ?N - 1"
    using length_filter_neq[OF dt, of r] rs(1) st by simp
  have "length (edges ?T) = length (map fst (edges ?T))" by simp
  also have "\<dots> = size (mset (map fst (edges ?T)))" by (simp only: size_mset)
  also have "\<dots> = length ?ds" by (simp only: dep_tree_edges_mset[OF ct es(2)] size_mset)
  finally have le: "length (edges ?T) = ?N - 1" using lo by (simp add: dep_list_def)
  have walk: "\<exists>p. head_walk (?N - 1) ?T r n = Some p
                 \<and> hd p = n \<and> last p = r \<and> distinct p \<and> length p \<le> ?N"
    if n: "n \<in> set (terminals G)" for n
  proof -
    have tn: "terminal G n" using n st by simp
    have "below G n \<subseteq> set (terminals G) - {n}" using st by (auto simp: below_def)
    then have "card (below G n) \<le> card (set (terminals G) - {n})"
      by (intro card_mono) auto
    also have "\<dots> = ?N - 1" using n dt by (simp add: distinct_card)
    finally have "card (below G n) \<le> ?N - 1" .
    from head_walk_reaches[OF ct r tn this] obtain p where
      "head_walk (?N - 1) ?T r n = Some p" "distinct p" "hd p = n" "last p = r"
      "length p \<le> Suc (?N - 1)" by blast
    moreover have "Suc (?N - 1) = ?N" using assms(2) by (cases "terminals G") auto
    ultimately show ?thesis by auto
  qed
  show ?thesis
    using es(1) r getDependencyTree_with_deps(1)[OF ct es(2)] le walk
    by (intro exI[of _ "with_deps G ?ds"] exI[of _ r]) simp
qed

theorem dependency_tree_valid_witness:
  "\<exists>G1 r. enrichAstWithDeps example_graph = Some (Inr G1) \<and> getRoot example_graph = Inr r
           \<and> nodes (getDependencyTree G1) = filter (\<lambda>(n, a). is_terminal a) (nodes example_graph)
           \<and> length (edges (getDependencyTree G1)) = length (terminals example_graph) - 1
           \<and> (\<forall>n\<in>set (terminals example_graph).
                \<exists>p. head_walk (length (terminals example_graph) - 1) (getDependencyTree G1) r n = Some p
                    \<and> hd p = n \<and> last p = r \<and> distinct p \<and> length p \<le> length (terminals example_graph))"
proof -
  have t: "terminals example_graph \<noteq> []" by code_simp
  show ?thesis by (rule dependency_tree_valid[OF example_graph_ct t])
qed

subsection \<open>Walks\<close>

lemma walk_nonempty: "walk adj p \<Longrightarrow> p \<noteq> []"
  by (cases p) auto

lemma walk_Cons: "ys \<noteq> [] \<Longrightarrow> walk adj (x # ys) \<longleftrightarrow> adj x (hd ys) \<and> walk adj ys"
  by (cases ys) auto

lemma walk_append:
  "xs \<noteq> [] \<Longrightarrow> ys \<noteq> [] \<Longrightarrow>
     walk adj (xs @ ys) \<longleftrightarrow> walk adj xs \<and> walk adj ys \<and> adj (last xs) (hd ys)"
proof (induction xs)
  case Nil
  then show ?case by simp
next
  case (Cons x xs)
  show ?case
  proof (cases "xs = []")
    case True
    with Cons.prems show ?thesis by (auto simp: walk_Cons)
  next
    case False
    with Cons have "walk adj (xs @ ys) \<longleftrightarrow> walk adj xs \<and> walk adj ys \<and> adj (last xs) (hd ys)"
      by simp
    with False Cons.prems show ?thesis by (auto simp: walk_Cons[of "xs @ ys"] walk_Cons[of xs])
  qed
qed

lemma walk_snoc:
  "walk adj xs \<Longrightarrow> adj (last xs) w \<Longrightarrow> walk adj (xs @ [w])"
  using walk_append[of xs "[w]" adj] walk_nonempty[of adj xs] by simp

lemma walk_rev:
  assumes sym: "\<And>x y. adj x y \<Longrightarrow> adj y x"
  shows "walk adj p \<Longrightarrow> walk adj (rev p)"
proof (induction p)
  case Nil
  then show ?case by simp
next
  case (Cons x p)
  show ?case
  proof (cases "p = []")
    case True
    then show ?thesis by simp
  next
    case False
    with Cons.prems have w: "adj x (hd p)" "walk adj p" by (auto simp: walk_Cons)
    with Cons.IH have "walk adj (rev p)" by simp
    moreover have "last (rev p) = hd p" using False by (simp add: last_rev)
    ultimately have "walk adj (rev p @ [x])" using w(1) by (intro walk_snoc) (auto intro: sym)
    then show ?thesis by simp
  qed
qed

lemma set_neighbors_adjacent: "set (neighbors G v) = {w. adjacent G v w}"
  by (simp add: set_neighbors adjacent_def edge_rel_def)

lemma adjacent_sym: "adjacent G x y \<Longrightarrow> adjacent G y x"
  by (auto simp: adjacent_def)

subsection \<open>Breadth-first search for a path\<close>

lemma extend_paths_mem:
  "q' \<in> set (snd (extend_paths G seen fr)) \<Longrightarrow>
     \<exists>q\<in>set fr. \<exists>w. q' = w # q \<and> adjacent G (hd q) w \<and> w \<notin> set seen"
proof (induction fr arbitrary: seen)
  case Nil
  then show ?case by simp
next
  case (Cons p ps)
  define new where "new = new_nodes seen (neighbors G (hd p))"
  from Cons.prems have "q' \<in> (\<lambda>w. w # p) ` set new \<or> q' \<in> set (snd (extend_paths G (seen @ new) ps))"
    by (auto simp: Let_def new_def)
  then show ?case
  proof
    assume "q' \<in> (\<lambda>w. w # p) ` set new"
    then obtain w where "q' = w # p" "w \<in> set new" by auto
    then show ?thesis
      by (auto simp: new_def set_new_nodes set_neighbors_adjacent)
  next
    assume "q' \<in> set (snd (extend_paths G (seen @ new) ps))"
    from Cons.IH[OF this] show ?thesis by auto
  qed
qed

lemma path_inv_step:
  assumes "path_inv G source seen fr"
  shows "path_inv G source (fst (extend_paths G seen fr)) (snd (extend_paths G seen fr))"
  unfolding path_inv_def
proof
  fix q' assume q': "q' \<in> set (snd (extend_paths G seen fr))"
  from extend_paths_mem[OF q'] obtain q w where
    q: "q \<in> set fr" "q' = w # q" "adjacent G (hd q) w" "w \<notin> set seen" by auto
  from assms q(1) have iq: "walk (adjacent G) (rev q)" "distinct q" "last q = source"
    "set q \<subseteq> set seen" by (auto simp: path_inv_def)
  have qne: "q \<noteq> []" using iq(1) walk_nonempty by fastforce
  have "last (rev q) = hd q" using qne by (simp add: last_rev)
  with iq(1) q(3) have "walk (adjacent G) (rev q @ [w])" by (intro walk_snoc) simp_all
  moreover have "w \<notin> set q" using iq(4) q(4) by auto
  moreover have "hd q' \<in> set (fst (extend_paths G seen fr))"
    using q' by (subst extend_paths_seen) auto
  moreover have "set seen \<subseteq> set (fst (extend_paths G seen fr))"
    by (subst extend_paths_seen) auto
  ultimately show "walk (adjacent G) (rev q') \<and> distinct q' \<and> last q' = source
                   \<and> set q' \<subseteq> set (fst (extend_paths G seen fr))"
    using q(2) iq qne by auto
qed

lemma sp_levels_sound:
  "path_inv G source seen fr \<Longrightarrow> sp_levels G target seen fr = Some p
     \<Longrightarrow> simple_path (adjacent G) p source target"
proof (induction G target seen fr rule: sp_levels.induct)
  case (1 G target seen frontier)
  show ?case
  proof (cases "find (\<lambda>p. hd p = target) frontier")
    case (Some q)
    then have q: "q \<in> set frontier" "hd q = target"
      by (auto simp: find_Some_iff)
    with "1.prems"(1) have iq: "walk (adjacent G) (rev q)" "distinct q" "last q = source"
      by (auto simp: path_inv_def)
    have qne: "q \<noteq> []" using iq(1) walk_nonempty by fastforce
    have "p = rev q" using "1.prems"(2) Some by (subst (asm) sp_levels.simps) simp
    with iq q(2) qne show ?thesis
      by (simp add: simple_path_def hd_rev last_rev)
  next
    case None
    show ?thesis
    proof (cases "frontier = []")
      case True
      with "1.prems"(2) None show ?thesis by (subst (asm) sp_levels.simps) simp
    next
      case False
      have "sp_levels G target (fst (extend_paths G seen frontier))
              (snd (extend_paths G seen frontier)) = Some p"
        using "1.prems"(2) None False by (subst (asm) sp_levels.simps) (simp add: Let_def)
      from "1.IH"[OF None False refl path_inv_step[OF "1.prems"(1)] this] show ?thesis .
    qed
  qed
qed

lemma sp_levels_complete:
  "hd ` set fr \<subseteq> set seen \<Longrightarrow>
   (\<forall>x\<in>set seen - hd ` set fr. \<forall>y. adjacent G x y \<longrightarrow> y \<in> set seen) \<Longrightarrow>
   target \<notin> set seen - hd ` set fr \<Longrightarrow>
   target \<in> (und_rel G)\<^sup>* `` set seen \<Longrightarrow>
   sp_levels G target seen fr \<noteq> None"
proof (induction G target seen fr rule: sp_levels.induct)
  case (1 G target seen frontier)
  show ?case
  proof (cases "find (\<lambda>p. hd p = target) frontier")
    case (Some q)
    then show ?thesis by (subst sp_levels.simps) simp
  next
    case None
    then have nt: "target \<notin> hd ` set frontier" by (auto simp: find_None_iff)
    show ?thesis
    proof (cases "frontier = []")
      case True
      with "1.prems"(2) have "und_rel G `` set seen \<subseteq> set seen"
        by (auto simp: und_rel_def)
      then have "(und_rel G)\<^sup>* `` set seen = set seen" by (rule Image_closed_trancl)
      with "1.prems"(3,4) True show ?thesis by simp
    next
      case False
      let ?s = "fst (extend_paths G seen frontier)"
      let ?n = "snd (extend_paths G seen frontier)"
      have s: "set ?s = set seen \<union> hd ` set ?n"
        by (subst extend_paths_seen) auto
      have n: "hd ` set ?n = (\<Union>p\<in>set frontier. set (neighbors G (hd p))) - set seen"
        by (rule extend_paths_new)
      have d: "set ?s - hd ` set ?n = set seen" using s n by auto
      have a: "hd ` set ?n \<subseteq> set ?s" using s by auto
      have b: "\<forall>x\<in>set ?s - hd ` set ?n. \<forall>y. adjacent G x y \<longrightarrow> y \<in> set ?s"
        unfolding d
      proof (intro ballI allI impI)
        fix x y assume x: "x \<in> set seen" and xy: "adjacent G x y"
        show "y \<in> set ?s"
        proof (cases "x \<in> hd ` set frontier")
          case True
          then have "y \<in> (\<Union>p\<in>set frontier. set (neighbors G (hd p)))"
            using xy by (auto simp: set_neighbors_adjacent)
          then show ?thesis using s n by auto
        next
          case False
          with x xy "1.prems"(2) have "y \<in> set seen" by auto
          then show ?thesis using s by auto
        qed
      qed
      have c: "target \<notin> set ?s - hd ` set ?n"
        unfolding d using "1.prems"(3) nt by auto
      have "(und_rel G)\<^sup>* `` set seen \<subseteq> (und_rel G)\<^sup>* `` set ?s"
        using s by auto
      with "1.prems"(4) have e: "target \<in> (und_rel G)\<^sup>* `` set ?s" by auto
      have "sp_levels G target ?s ?n \<noteq> None"
        using "1.IH"[OF None False refl a b c e] .
      then show ?thesis using None False by (subst sp_levels.simps) (simp add: Let_def)
    qed
  qed
qed

lemma shortest_path_spec:
  assumes s: "source \<in> set (node_ids G)" and t: "target \<in> set (node_ids G)"
    and r: "(source, target) \<in> (und_rel G)\<^sup>*"
  shows "\<exists>p. shortest_path G source target = Inr p \<and> simple_path (adjacent G) p source target"
proof -
  have inv: "path_inv G source [source] [[source]]" by (simp add: path_inv_def)
  have "sp_levels G target [source] [[source]] \<noteq> None"
    using r by (intro sp_levels_complete) auto
  then obtain p where p: "sp_levels G target [source] [[source]] = Some p" by auto
  from sp_levels_sound[OF inv p] p s t show ?thesis by (simp add: shortest_path_def)
qed

subsection \<open>Simple paths of a tree are unique\<close>

lemma tree_adj_sym: "tree_adj adj N par \<Longrightarrow> adj x y \<Longrightarrow> adj y x"
  by (auto simp: tree_adj_def)

lemma walk_restrict:
  "walk adj p \<Longrightarrow> l \<notin> set p \<Longrightarrow> walk (\<lambda>x y. adj x y \<and> x \<noteq> l \<and> y \<noteq> l) p"
proof (induction p)
  case Nil
  then show ?case by simp
next
  case (Cons x p)
  show ?case
  proof (cases "p = []")
    case True
    then show ?thesis by simp
  next
    case False
    then have "hd p \<in> set p" by simp
    with Cons False show ?thesis by (auto simp: walk_Cons)
  qed
qed

lemma leaf_not_inside:
  assumes w: "walk adj p" and d: "distinct p" and l: "l \<in> set p"
    and h: "hd p \<noteq> l" and t: "last p \<noteq> l"
    and out: "\<And>y. adj l y \<Longrightarrow> y = c" and inc: "\<And>x. adj x l \<Longrightarrow> x = c"
  shows False
proof -
  from l obtain xs ys where p: "p = xs @ l # ys" by (auto dest: split_list)
  have xs: "xs \<noteq> []" using h p by (cases xs) auto
  have ys: "ys \<noteq> []" using t p by auto
  from w have "walk adj (xs @ (l # ys))" by (simp add: p)
  then have a: "adj (last xs) l" and b: "walk adj (l # ys)"
    using walk_append[OF xs, of "l # ys" adj] by auto
  from b ys have "adj l (hd ys)" by (simp add: walk_Cons)
  with a out inc have "last xs = hd ys" by metis
  moreover have "last xs \<in> set xs" "hd ys \<in> set ys" using xs ys by auto
  ultimately show False using d p by auto
qed

lemma simple_path_unique:
  "tree_adj adj N par \<Longrightarrow> simple_path adj p u v \<Longrightarrow> simple_path adj q u v \<Longrightarrow> p = q"
proof (induction N arbitrary: adj p q u v)
  case 0
  then have no: "\<not> adj x y" for x y by (simp add: tree_adj_def)
  have single: "p = [u]" if "simple_path adj p u v" for p
  proof -
    from that have w: "walk adj p" and hp: "hd p = u" by (auto simp: simple_path_def)
    then obtain x xs where p: "p = x # xs" by (cases p) auto
    with w no have "xs = []" by (cases xs) auto
    with p hp show ?thesis by simp
  qed
  from single[OF 0(2)] single[OF 0(3)] show ?case by simp
next
  case (Suc N)
  let ?l = N
  define adj' where "adj' = (\<lambda>x y. adj x y \<and> x \<noteq> ?l \<and> y \<noteq> ?l)"
  note ta = Suc.prems(1)
  have par: "\<And>v. 1 \<le> v \<Longrightarrow> v < Suc N \<Longrightarrow> par v < v" using ta by (simp add: tree_adj_def)
  have adj_iff: "\<And>x y. adj x y \<longleftrightarrow> (1 \<le> y \<and> y < Suc N \<and> x = par y) \<or> (1 \<le> x \<and> x < Suc N \<and> y = par x)"
    using ta unfolding tree_adj_def by blast
  have ta': "tree_adj adj' N par"
    unfolding tree_adj_def adj'_def
  proof (intro conjI allI impI)
    fix v assume "1 \<le> v \<and> v < N"
    then show "par v < v" using par[of v] by simp
  next
    fix x y
    show "(adj x y \<and> x \<noteq> N \<and> y \<noteq> N)
            = (1 \<le> y \<and> y < N \<and> x = par y \<or> 1 \<le> x \<and> x < N \<and> y = par x)"
    proof
      assume "adj x y \<and> x \<noteq> N \<and> y \<noteq> N"
      then show "1 \<le> y \<and> y < N \<and> x = par y \<or> 1 \<le> x \<and> x < N \<and> y = par x"
        using adj_iff[of x y] by auto
    next
      assume a: "1 \<le> y \<and> y < N \<and> x = par y \<or> 1 \<le> x \<and> x < N \<and> y = par x"
      then have "adj x y" using adj_iff[of x y] by auto
      moreover from a have "x \<noteq> N \<and> y \<noteq> N"
        using par[of y] par[of x] by auto
      ultimately show "adj x y \<and> x \<noteq> N \<and> y \<noteq> N" by simp
    qed
  qed
  have out: "y = par ?l" if "adj ?l y" for y
    using that adj_iff[of ?l y] par[of y] by auto
  have inc: "x = par ?l" if "adj x ?l" for x
    using that adj_iff[of x ?l] par[of x] by auto
  have restrict: "simple_path adj' p u v" if "simple_path adj p u v" "?l \<notin> set p" for p u v
    using that walk_restrict[of adj p ?l] by (auto simp: simple_path_def adj'_def)
  have from_leaf: "p = q" if pp: "simple_path adj p ?l v" and qq: "simple_path adj q ?l v" for p q v
  proof (cases "v = ?l")
    case True
    have single: "p = [?l]" if "simple_path adj p ?l ?l" for p
    proof -
      from that have w: "walk adj p" "distinct p" "hd p = ?l" "last p = ?l"
        by (auto simp: simple_path_def)
      then obtain xs where p: "p = ?l # xs" by (cases p) auto
      have "xs = []"
      proof (rule ccontr)
        assume "xs \<noteq> []"
        then have "last p \<in> set xs" using p by auto
        with w(2,4) p show False by auto
      qed
      with p show ?thesis by simp
    qed
    from single[of p] single[of q] pp qq True show ?thesis by simp
  next
    case False
    have tail: "\<exists>p'. p = ?l # p' \<and> simple_path adj' p' (par ?l) v" if "simple_path adj p ?l v" for p
    proof -
      from that have w: "walk adj p" "distinct p" "hd p = ?l" "last p = v"
        by (auto simp: simple_path_def)
      then obtain p' where p: "p = ?l # p'" by (cases p) auto
      have ne: "p' \<noteq> []" using w(4) p False by auto
      with w(1) p have a: "adj ?l (hd p')" "walk adj p'" by (auto simp: walk_Cons)
      from out[OF a(1)] have "hd p' = par ?l" .
      moreover have "last p' = v" using w(4) p ne by simp
      moreover have "distinct p'" "?l \<notin> set p'" using w(2) p by auto
      ultimately have "simple_path adj' p' (par ?l) v"
        using a(2) by (intro restrict) (auto simp: simple_path_def)
      with p show ?thesis by blast
    qed
    from tail[OF pp] tail[OF qq] obtain p' q' where
      "p = ?l # p'" "q = ?l # q'" "simple_path adj' p' (par ?l) v" "simple_path adj' q' (par ?l) v"
      by blast
    with Suc.IH[OF ta'] show ?thesis by blast
  qed
  note pp = Suc.prems(2) and qq = Suc.prems(3)
  show ?case
  proof (cases "u = ?l")
    case True
    with from_leaf pp qq show ?thesis by blast
  next
    case u: False
    show ?thesis
    proof (cases "v = ?l")
      case True
      have rv: "simple_path adj (rev p) ?l u" if "simple_path adj p u ?l" for p
      proof -
        from that have "walk adj p" "distinct p" "hd p = u" "last p = ?l"
          by (auto simp: simple_path_def)
        moreover from this have "p \<noteq> []" by (auto dest: walk_nonempty)
        ultimately show ?thesis
          using walk_rev[of adj p] tree_adj_sym[OF ta]
          by (auto simp: simple_path_def hd_rev last_rev)
      qed
      from from_leaf[OF rv rv] pp qq True have "rev p = rev q" by blast
      then show ?thesis by simp
    next
      case v: False
      have avoid: "?l \<notin> set p" if "simple_path adj p u v" for p
      proof
        assume "?l \<in> set p"
        with that u v show False
          using leaf_not_inside[of adj p ?l "par ?l"] out inc
          by (auto simp: simple_path_def)
      qed
      from restrict[OF pp avoid[OF pp]] restrict[OF qq avoid[OF qq]] Suc.IH[OF ta']
      show ?thesis by blast
    qed
  qed
qed

subsection \<open>The constituency tree as an undirected tree\<close>

lemma ct_parent:
  assumes ct: "constituency_tree G"
  shows "(x, y) \<in> edge_rel G \<longleftrightarrow> 1 \<le> y \<and> y < length (nodes G) \<and> x = parent G y"
proof
  assume e: "(x, y) \<in> edge_rel G"
  note b = ct_edge[OF ct e]
  from ct_in_edges[OF ct b(3) b(2)] obtain u where u: "in_edges G y = [(u, y)]" "(u, y) \<in> edge_rel G"
    by auto
  from ct_unique_parent[OF ct e u(2)] u(1) have "x = parent G y" by (simp add: parent_def)
  with b show "1 \<le> y \<and> y < length (nodes G) \<and> x = parent G y" by simp
next
  assume a: "1 \<le> y \<and> y < length (nodes G) \<and> x = parent G y"
  with ct_in_edges[OF ct, of y] obtain u where u: "in_edges G y = [(u, y)]" "(u, y) \<in> edge_rel G"
    by auto
  with a show "(x, y) \<in> edge_rel G" by (simp add: parent_def)
qed

lemma ct_parent_less:
  "constituency_tree G \<Longrightarrow> 1 \<le> v \<Longrightarrow> v < length (nodes G) \<Longrightarrow> parent G v < v"
  using ct_parent[of G "parent G v" v] ct_edge(1)[of G "parent G v" v] by simp

lemma ct_tree_adj:
  assumes ct: "constituency_tree G"
  shows "tree_adj (adjacent G) (length (nodes G)) (parent G)"
  unfolding tree_adj_def adjacent_def
  using ct_parent[OF ct] ct_parent_less[OF ct] by auto

lemma ct_antisym:
  assumes ct: "constituency_tree G" and "(a, b) \<in> (edge_rel G)\<^sup>*" "(b, a) \<in> (edge_rel G)\<^sup>*"
  shows "a = b"
  using assms(2,3) ct_trancl_less[OF ct, of a b] ct_trancl_less[OF ct, of b a]
  by (auto simp: rtrancl_eq_or_trancl)

lemma ct_step_up:
  assumes ct: "constituency_tree G" and "(a, v) \<in> (edge_rel G)\<^sup>+"
  shows "(a, parent G v) \<in> (edge_rel G)\<^sup>*" "(parent G v, v) \<in> edge_rel G"
proof -
  from assms(2) obtain c where c: "(a, c) \<in> (edge_rel G)\<^sup>*" "(c, v) \<in> edge_rel G"
    by (auto dest: tranclD2)
  with ct_parent[OF ct, of c v] have "c = parent G v" by simp
  with c show "(a, parent G v) \<in> (edge_rel G)\<^sup>*" "(parent G v, v) \<in> edge_rel G" by auto
qed

lemma ct_below_iff:
  assumes ct: "constituency_tree G" and e: "(u, v) \<in> edge_rel G"
  shows "(x, v) \<in> (edge_rel G)\<^sup>* \<longleftrightarrow> x = v \<or> (x, u) \<in> (edge_rel G)\<^sup>*"
proof
  assume "(x, v) \<in> (edge_rel G)\<^sup>*"
  then have "x = v \<or> (x, v) \<in> (edge_rel G)\<^sup>+" by (auto simp: rtrancl_eq_or_trancl)
  then show "x = v \<or> (x, u) \<in> (edge_rel G)\<^sup>*"
  proof
    assume "(x, v) \<in> (edge_rel G)\<^sup>+"
    from ct_step_up[OF ct this] ct_unique_parent[OF ct e] show ?thesis by auto
  qed simp
next
  assume "x = v \<or> (x, u) \<in> (edge_rel G)\<^sup>*"
  with e show "(x, v) \<in> (edge_rel G)\<^sup>*" by auto
qed

lemma up_chain_props:
  assumes ct: "constituency_tree G"
  shows "(a, v) \<in> (edge_rel G)\<^sup>* \<Longrightarrow>
         hd (up_chain (parent G) v a) = v \<and> last (up_chain (parent G) v a) = a
         \<and> walk (adjacent G) (up_chain (parent G) v a) \<and> distinct (up_chain (parent G) v a)
         \<and> set (up_chain (parent G) v a) = {x. (a, x) \<in> (edge_rel G)\<^sup>* \<and> (x, v) \<in> (edge_rel G)\<^sup>*}"
proof (induction v rule: less_induct)
  case (less v)
  show ?case
  proof (cases "v = a")
    case True
    have "up_chain (parent G) a a = [a]" by (subst up_chain.simps) simp
    moreover have "{x. (a, x) \<in> (edge_rel G)\<^sup>* \<and> (x, a) \<in> (edge_rel G)\<^sup>*} = {a}"
      using ct_antisym[OF ct] by auto
    ultimately show ?thesis using True by simp
  next
    case False
    with less.prems have av: "(a, v) \<in> (edge_rel G)\<^sup>+" by (auto simp: rtrancl_eq_or_trancl)
    note su = ct_step_up[OF ct av]
    let ?u = "parent G v"
    have uv: "?u < v" using ct_edge(1)[OF ct su(2)] .
    have "a < v" using ct_trancl_less[OF ct av] by simp
    then have uc: "up_chain (parent G) v a = v # up_chain (parent G) ?u a"
      using uv by (subst up_chain.simps) simp
    note ih = less.IH[OF uv su(1)]
    let ?c = "up_chain (parent G) ?u a"
    have ne: "?c \<noteq> []" using ih by (auto dest: walk_nonempty)
    have "adjacent G v (hd ?c)" using ih su(2) by (simp add: adjacent_def)
    then have w: "walk (adjacent G) (v # ?c)" using ih ne by (simp add: walk_Cons)
    have "v \<notin> set ?c"
    proof
      assume "v \<in> set ?c"
      with ih have "(v, ?u) \<in> (edge_rel G)\<^sup>*" by simp
      with su(2) have "(v, v) \<in> (edge_rel G)\<^sup>+" by auto
      with ct_trancl_less[OF ct this] show False by simp
    qed
    moreover have "{x. (a, x) \<in> (edge_rel G)\<^sup>* \<and> (x, v) \<in> (edge_rel G)\<^sup>*}
                     = insert v {x. (a, x) \<in> (edge_rel G)\<^sup>* \<and> (x, ?u) \<in> (edge_rel G)\<^sup>*}"
      using ct_below_iff[OF ct su(2)] less.prems by auto
    ultimately show ?thesis using ih w ne by (simp add: uc)
  qed
qed

lemma up_chain_compose:
  assumes ct: "constituency_tree G" and qp: "(q, p) \<in> (edge_rel G)\<^sup>*"
  shows "(p, v) \<in> (edge_rel G)\<^sup>* \<Longrightarrow>
         up_chain (parent G) v q = up_chain (parent G) v p @ tl (up_chain (parent G) p q)"
proof (induction v rule: less_induct)
  case (less v)
  show ?case
  proof (cases "v = p")
    case True
    have "up_chain (parent G) p p = [p]" by (subst up_chain.simps) simp
    moreover have "hd (up_chain (parent G) p q) = p" "up_chain (parent G) p q \<noteq> []"
      using up_chain_props[OF ct qp] by (auto dest: walk_nonempty)
    ultimately show ?thesis using True by (cases "up_chain (parent G) p q") auto
  next
    case False
    with less.prems have pv: "(p, v) \<in> (edge_rel G)\<^sup>+" by (auto simp: rtrancl_eq_or_trancl)
    note su = ct_step_up[OF ct pv]
    let ?u = "parent G v"
    have uv: "?u < v" using ct_edge(1)[OF ct su(2)] .
    have "p < v" using ct_trancl_less[OF ct pv] by simp
    moreover have "q \<le> p" using qp ct_trancl_less[OF ct, of q p] by (auto simp: rtrancl_eq_or_trancl)
    ultimately have "up_chain (parent G) v p = v # up_chain (parent G) ?u p"
      "up_chain (parent G) v q = v # up_chain (parent G) ?u q"
      using uv by (subst up_chain.simps, simp)+
    with less.IH[OF uv su(1)] show ?thesis by simp
  qed
qed

lemma walk_connected: "walk adj p \<Longrightarrow> (hd p, last p) \<in> {(x, y). adj x y}\<^sup>*"
proof (induction p)
  case Nil
  then show ?case by simp
next
  case (Cons x p)
  show ?case
  proof (cases "p = []")
    case True
    then show ?thesis by simp
  next
    case False
    with Cons have "adj x (hd p)" "(hd p, last p) \<in> {(x, y). adj x y}\<^sup>*" by (auto simp: walk_Cons)
    then have "(x, last p) \<in> {(x, y). adj x y}\<^sup>*" by (auto intro: converse_rtrancl_into_rtrancl)
    with False show ?thesis by simp
  qed
qed

lemma ct_shortest_path:
  assumes ct: "constituency_tree G" and sp: "simple_path (adjacent G) p u v"
    and uv: "u < length (nodes G)" "v < length (nodes G)"
  shows "shortest_path G u v = Inr p"
proof -
  from sp have w: "walk (adjacent G) p" "hd p = u" "last p = v" by (auto simp: simple_path_def)
  from walk_connected[OF w(1)] w(2,3) have conn: "(u, v) \<in> (und_rel G)\<^sup>*" by (simp add: und_rel_def)
  have "u \<in> set (node_ids G)" "v \<in> set (node_ids G)" using ct_ids[OF ct] uv by auto
  from shortest_path_spec[OF this conn] obtain p' where
    p': "shortest_path G u v = Inr p'" "simple_path (adjacent G) p' u v" by blast
  from simple_path_unique[OF ct_tree_adj[OF ct] p'(2) sp] p'(1) show ?thesis by simp
qed

subsection \<open>The path between two nodes of the constituency tree\<close>

lemma up_chain_Cons:
  assumes ct: "constituency_tree G" and "(p, v) \<in> (edge_rel G)\<^sup>+"
  shows "up_chain (parent G) v p = v # up_part G v p" "up_part G v p \<noteq> []"
    "last (up_part G v p) = p" "distinct (up_part G v p)"
    "set (up_part G v p) = {x. (p, x) \<in> (edge_rel G)\<^sup>* \<and> (x, v) \<in> (edge_rel G)\<^sup>+}"
proof -
  from assms(2) have pv: "(p, v) \<in> (edge_rel G)\<^sup>*" by simp
  note props = up_chain_props[OF ct pv]
  let ?c = "up_chain (parent G) v p"
  have ne: "?c \<noteq> []" using props by (auto dest: walk_nonempty)
  then show c: "?c = v # up_part G v p" using props by (cases ?c) (auto simp: up_part_def)
  have "p \<noteq> v" using ct_trancl_less[OF ct assms(2)] by auto
  with props c show u: "up_part G v p \<noteq> []" by (cases "up_part G v p") auto
  from props c u show "last (up_part G v p) = p" by (metis last_ConsR)
  from props c show "distinct (up_part G v p)" by (metis distinct.simps(2))
  have "v \<notin> set (up_part G v p)" using props c by (metis distinct.simps(2))
  moreover have "set ?c = insert v (set (up_part G v p))" using c by (metis list.simps(15))
  ultimately have "set (up_part G v p) = set ?c - {v}" by auto
  also have "\<dots> = {x. (p, x) \<in> (edge_rel G)\<^sup>* \<and> (x, v) \<in> (edge_rel G)\<^sup>+}"
    using props ct_trancl_less[OF ct, of v v] by (auto simp: rtrancl_eq_or_trancl)
  finally show "set (up_part G v p) = {x. (p, x) \<in> (edge_rel G)\<^sup>* \<and> (x, v) \<in> (edge_rel G)\<^sup>+}" .
qed

lemma down_part_props:
  assumes ct: "constituency_tree G" and pn: "(p, n) \<in> (edge_rel G)\<^sup>+"
  shows "rev (up_chain (parent G) n p) = p # down_part G p n @ [n]"
    and "set (down_part G p n) = {x. (p, x) \<in> (edge_rel G)\<^sup>+ \<and> (x, n) \<in> (edge_rel G)\<^sup>+}"
    and "distinct (down_part G p n)"
proof -
  note uc = up_chain_Cons[OF ct pn]
  let ?u = "up_part G n p"
  have r: "rev ?u = p # tl (rev ?u)"
    using uc(2,3) by (cases "rev ?u") (auto simp: last_rev[symmetric] hd_rev)
  have dp: "down_part G p n = tl (rev ?u)" by (simp add: down_part_def up_part_def)
  show "rev (up_chain (parent G) n p) = p # down_part G p n @ [n]"
    using r by (simp add: uc(1) dp)
  have "set (rev ?u) = insert p (set (tl (rev ?u)))" using r by (metis list.simps(15))
  moreover have "distinct (rev ?u)" using uc(4) by simp
  then have "p \<notin> set (tl (rev ?u))" "distinct (tl (rev ?u))" using r by (metis distinct.simps(2))+
  ultimately have "set (tl (rev ?u)) = set ?u - {p}" by auto
  also have "\<dots> = {x. (p, x) \<in> (edge_rel G)\<^sup>+ \<and> (x, n) \<in> (edge_rel G)\<^sup>+}"
    unfolding uc(5) using ct_trancl_less[OF ct, of p p] by (auto simp: rtrancl_eq_or_trancl)
  finally show "set (down_part G p n) = {x. (p, x) \<in> (edge_rel G)\<^sup>+ \<and> (x, n) \<in> (edge_rel G)\<^sup>+}"
    by (simp add: dp)
  show "distinct (down_part G p n)" using \<open>distinct (tl (rev ?u))\<close> by (simp add: dp)
qed

lemma ct_tree_path:
  assumes ct: "constituency_tree G"
    and ph: "(p, h) \<in> (edge_rel G)\<^sup>+" and pn: "(p, n) \<in> (edge_rel G)\<^sup>+"
    and only: "\<And>x. (p, x) \<in> (edge_rel G)\<^sup>* \<Longrightarrow> (x, h) \<in> (edge_rel G)\<^sup>* \<Longrightarrow> (x, n) \<in> (edge_rel G)\<^sup>*
                 \<Longrightarrow> x = p"
  shows "simple_path (adjacent G) (h # up_part G h p @ down_part G p n @ [n]) h n"
proof -
  note uh = up_chain_Cons[OF ct ph]
  note dn = down_part_props[OF ct pn]
  have wa: "walk (adjacent G) (h # up_part G h p)"
    using up_chain_props[OF ct trancl_into_rtrancl[OF ph]] uh(1) by simp
  have "walk (adjacent G) (up_chain (parent G) n p)"
    using up_chain_props[OF ct trancl_into_rtrancl[OF pn]] by simp
  then have "walk (adjacent G) (rev (up_chain (parent G) n p))"
    by (rule walk_rev[rotated]) (rule adjacent_sym)
  then have wb: "walk (adjacent G) (p # down_part G p n @ [n])" by (simp add: dn(1))
  then have wb': "walk (adjacent G) (down_part G p n @ [n])" "adjacent G p (hd (down_part G p n @ [n]))"
    by (simp_all add: walk_Cons)
  have "walk (adjacent G) ((h # up_part G h p) @ (down_part G p n @ [n]))"
    using wa wb' uh(2,3) by (subst walk_append) simp_all
  then have w: "walk (adjacent G) (h # up_part G h p @ down_part G p n @ [n])" by simp
  have hn: "h \<noteq> n"
  proof
    assume "h = n"
    then have "n = p" using only[of n] pn by (blast intro: trancl_into_rtrancl)
    with ct_trancl_less[OF ct pn] show False by simp
  qed
  have d1: "h \<notin> set (up_part G h p)" using uh(5) ct_trancl_less[OF ct, of h h] by auto
  have d2: "h \<notin> set (down_part G p n)"
  proof
    assume "h \<in> set (down_part G p n)"
    then have "(p, h) \<in> (edge_rel G)\<^sup>+" "(h, n) \<in> (edge_rel G)\<^sup>+" using dn(2) by auto
    then have "h = p" using only[of h] by (blast intro: trancl_into_rtrancl)
    with ct_trancl_less[OF ct ph] show False by simp
  qed
  have d3: "set (up_part G h p) \<inter> set (down_part G p n) = {}"
  proof (rule ccontr)
    assume "set (up_part G h p) \<inter> set (down_part G p n) \<noteq> {}"
    then obtain x where "x \<in> set (up_part G h p)" "x \<in> set (down_part G p n)" by auto
    then have x: "(x, h) \<in> (edge_rel G)\<^sup>+" "(p, x) \<in> (edge_rel G)\<^sup>+" "(x, n) \<in> (edge_rel G)\<^sup>+"
      using uh(5) dn(2) by auto
    then have "x = p" using only[of x] by (blast intro: trancl_into_rtrancl)
    with ct_trancl_less[OF ct x(2)] show False by simp
  qed
  have d4: "n \<notin> set (up_part G h p)"
  proof
    assume "n \<in> set (up_part G h p)"
    then have "(p, n) \<in> (edge_rel G)\<^sup>*" "(n, h) \<in> (edge_rel G)\<^sup>+" using uh(5) by auto
    then have "n = p" using only[of n] by (blast intro: trancl_into_rtrancl)
    with ct_trancl_less[OF ct pn] show False by simp
  qed
  have d5: "n \<notin> set (down_part G p n)" using dn(2) ct_trancl_less[OF ct, of n n] by auto
  have "distinct (h # up_part G h p @ down_part G p n @ [n])"
    using hn d1 d2 d3 d4 d5 uh(4) dn(3) by auto
  with w show ?thesis by (simp add: simple_path_def)
qed

lemma inner_path: "inner (h # xs @ [n]) = xs"
  by (simp add: inner_def butlast_append)

subsection \<open>The index loop\<close>

lemma index_loop_snoc:
  "index_loop (xs @ [x]) sh = (if x \<in> set sh then Some (index_of sh x) else index_loop xs sh)"
  by (simp add: index_loop_def)

lemma index_loop_eq:
  "index_loop xs sh =
     (case filter (\<lambda>m. m \<in> set sh) xs of [] \<Rightarrow> None | m # ms \<Rightarrow> Some (index_of sh (last (m # ms))))"
proof (induction xs rule: rev_induct)
  case Nil
  then show ?case by (simp add: index_loop_def)
next
  case (snoc x xs)
  show ?case
  proof (cases "x \<in> set sh")
    case True
    then show ?thesis
      by (cases "filter (\<lambda>m. m \<in> set sh) xs") (simp_all add: index_loop_snoc)
  next
    case False
    with snoc show ?thesis by (simp add: index_loop_snoc)
  qed
qed

lemma index_of_append_in: "x \<in> set xs \<Longrightarrow> index_of (xs @ ys) x = index_of xs x"
  by (induction xs) auto

lemma index_of_last: "distinct xs \<Longrightarrow> xs \<noteq> [] \<Longrightarrow> index_of xs (last xs) = length xs - 1"
proof (induction xs)
  case Nil
  then show ?case by simp
next
  case (Cons a xs)
  then show ?case by (cases "xs = []") auto
qed

lemma index_loop_prefix:
  assumes "us \<noteq> []" "distinct us" "set us \<subseteq> set sh" "set ds \<inter> set sh = {}"
  shows "filter (\<lambda>m. m \<in> set sh) (us @ ds) = us"
proof -
  have "filter (\<lambda>m. m \<in> set sh) us = us" using assms(3) by (auto simp: filter_id_conv)
  moreover have "filter (\<lambda>m. m \<in> set sh) ds = []" using assms(4) by (auto simp: filter_empty_conv)
  ultimately show ?thesis by simp
qed

subsection \<open>Connectedness\<close>

lemma edge_rel_und: "(edge_rel G)\<^sup>* \<subseteq> (und_rel G)\<^sup>*"
  by (rule rtrancl_mono) (auto simp: und_rel_def adjacent_def)

lemma und_rel_sym: "(x, y) \<in> (und_rel G)\<^sup>* \<Longrightarrow> (y, x) \<in> (und_rel G)\<^sup>*"
proof -
  have "sym (und_rel G)" by (auto simp: sym_def und_rel_def adjacent_def)
  then have "sym ((und_rel G)\<^sup>*)" by (rule sym_rtrancl)
  then show "(x, y) \<in> (und_rel G)\<^sup>* \<Longrightarrow> (y, x) \<in> (und_rel G)\<^sup>*" by (auto dest: symD)
qed

lemma ct_connected:
  assumes ct: "constituency_tree G" and "x < length (nodes G)" "y < length (nodes G)"
  shows "(x, y) \<in> (und_rel G)\<^sup>*"
proof -
  have "(0, x) \<in> (und_rel G)\<^sup>*" "(0, y) \<in> (und_rel G)\<^sup>*"
    using ct_root_reaches[OF ct] assms(2,3) edge_rel_und[of G] by auto
  then show ?thesis using und_rel_sym[of 0 x G] by (auto intro: rtrancl_trans)
qed

subsection \<open>The label of a spine\<close>

lemma map_err_ex:
  "(\<forall>x\<in>set xs. \<exists>y. f x = Inr y \<and> P x y) \<Longrightarrow> \<exists>ys. map_err f xs = Inr ys \<and> list_all2 P xs ys"
proof (induction xs)
  case Nil
  then show ?case by simp
next
  case (Cons x xs)
  then obtain y ys where "f x = Inr y" "P x y" "map_err f xs = Inr ys" "list_all2 P xs ys"
    by auto
  then show ?case by auto
qed

lemma getDepth_ok:
  assumes ct: "constituency_tree G" and "m < length (nodes G)" "r < length (nodes G)"
  shows "\<exists>d. getDepth G m r = Inr d \<and> depth_ok G r m d"
proof -
  have "m \<in> set (node_ids G)" "r \<in> set (node_ids G)" using ct_ids[OF ct] assms(2,3) by auto
  from shortest_path_spec[OF this ct_connected[OF ct assms(2,3)]]
  show ?thesis by (auto simp: getDepth_def depth_ok_def)
qed

lemma spine_label_ok:
  assumes ct: "constituency_tree G" and r: "r < length (nodes G)"
    and sp: "\<forall>m\<in>set spine. m < length (nodes G)"
  shows "\<exists>c. spine_label G r spine idx = Inr c
            \<and> non_terminals c = map (type_of G) spine
            \<and> special_index c = idx
            \<and> list_all2 (depth_ok G r) spine (depths c)"
proof -
  have "\<forall>m\<in>set spine. (case attr_of G m of Inl e \<Rightarrow> Inl e | Inr a \<Rightarrow> Inr (type a)) = Inr (type_of G m)"
  proof
    fix m assume "m \<in> set spine"
    with sp ct_node_attrs[OF ct, of m] obtain a where "node_attrs G m = Some a" by auto
    then show "(case attr_of G m of Inl e \<Rightarrow> Inl e | Inr a \<Rightarrow> Inr (type a)) = Inr (type_of G m)"
      by (simp add: attr_of_def type_of_def)
  qed
  then have ty: "map_err (\<lambda>m. case attr_of G m of Inl e \<Rightarrow> Inl e | Inr a \<Rightarrow> Inr (type a)) spine
                   = Inr (map (type_of G) spine)" by (rule map_err_all)
  have "\<forall>m\<in>set spine. \<exists>d. getDepth G m r = Inr d \<and> depth_ok G r m d"
    using getDepth_ok[OF ct _ r] sp by blast
  from map_err_ex[OF this] obtain ds where
    ds: "map_err (\<lambda>m. getDepth G m r) spine = Inr ds" "list_all2 (depth_ok G r) spine ds" by blast
  show ?thesis by (simp add: spine_label_def ty ds)
qed

subsection \<open>The head and the nearest ancestor\<close>

lemma ct_terminal_reach:
  assumes ct: "constituency_tree G" and "terminal G t" "(t, x) \<in> (edge_rel G)\<^sup>*"
  shows "x = t"
  using assms(3)
proof (cases rule: converse_rtranclE)
  case base
  then show ?thesis by simp
next
  case (step y)
  with ct_terminal[OF ct, of t] assms(2) show ?thesis by auto
qed

lemma is_head_facts:
  assumes ct: "constituency_tree G" and n: "terminal G n" and ih: "is_head G n p h"
  shows "(p, n) \<in> (edge_rel G)\<^sup>+" and "(p, h) \<in> (edge_rel G)\<^sup>+"
    and "terminal G h" and "start_of G h < start_of G n"
    and "\<And>x. (p, x) \<in> (edge_rel G)\<^sup>* \<Longrightarrow> (x, h) \<in> (edge_rel G)\<^sup>* \<Longrightarrow> (x, n) \<in> (edge_rel G)\<^sup>*
            \<Longrightarrow> x = p"
    and "\<And>t. terminal G t \<Longrightarrow> (p, t) \<in> (edge_rel G)\<^sup>* \<Longrightarrow> start_of G t < start_of G n
            \<Longrightarrow> start_of G h \<le> start_of G t"
proof -
  let ?s = "start_of G n"
  from ih show pn: "(p, n) \<in> (edge_rel G)\<^sup>+" by (simp add: is_head_def)
  from ih have hc: "h \<in> cands G p ?s" by (simp add: is_head_def)
  then show th: "terminal G h" and sh: "start_of G h < ?s" by (auto simp: cands_def)
  from hc have ph: "(p, h) \<in> (edge_rel G)\<^sup>*" by (simp add: cands_def)
  have "p \<noteq> h"
  proof
    assume "p = h"
    with pn have "(h, n) \<in> (edge_rel G)\<^sup>*" by simp
    from ct_terminal_reach[OF ct th this] sh show False by simp
  qed
  with ph show "(p, h) \<in> (edge_rel G)\<^sup>+" by (auto simp: rtrancl_eq_or_trancl)
  show "x = p" if x: "(p, x) \<in> (edge_rel G)\<^sup>*" "(x, h) \<in> (edge_rel G)\<^sup>*" "(x, n) \<in> (edge_rel G)\<^sup>*"
    for x
  proof (rule ccontr)
    assume "x \<noteq> p"
    with x(1) have px: "(p, x) \<in> (edge_rel G)\<^sup>+" by (auto simp: rtrancl_eq_or_trancl)
    have "x \<noteq> n"
    proof
      assume "x = n"
      with x(2) ct_terminal_reach[OF ct n] sh show False by auto
    qed
    with x(3) have "(x, n) \<in> (edge_rel G)\<^sup>+" by (auto simp: rtrancl_eq_or_trancl)
    with px ih have "cands G x ?s = {}" by (simp add: is_head_def)
    moreover have "h \<in> cands G x ?s" using x(2) th sh by (simp add: cands_def)
    ultimately show False by simp
  qed
  show "start_of G h \<le> start_of G t"
    if "terminal G t" "(p, t) \<in> (edge_rel G)\<^sup>*" "start_of G t < ?s" for t
  proof -
    from that have "t \<in> cands G p ?s" by (simp add: cands_def)
    with ih show ?thesis by (simp add: is_head_def)
  qed
qed

lemma head_of_head_above:
  assumes ct: "constituency_tree G" and n: "terminal G n"
    and ih: "is_head G n p h" and ihh: "is_head G h q hh"
  shows "(q, p) \<in> (edge_rel G)\<^sup>+"
proof -
  note f = is_head_facts[OF ct n ih]
  note g = is_head_facts[OF ct f(3) ihh]
  have "\<not> (p, q) \<in> (edge_rel G)\<^sup>*"
  proof
    assume "(p, q) \<in> (edge_rel G)\<^sup>*"
    with g(1) have "(p, hh) \<in> (edge_rel G)\<^sup>*" using g(2) by (meson rtrancl_trans trancl_into_rtrancl)
    from f(6)[OF g(3) this] g(4) f(4) show False by simp
  qed
  with ct_anc_comparable[OF ct g(1) f(2)] show ?thesis
    by (auto dest: trancl_into_rtrancl)
qed

lemma spine_bounds:
  assumes ct: "constituency_tree G" and "(p, h) \<in> (edge_rel G)\<^sup>+" "(p, n) \<in> (edge_rel G)\<^sup>+"
  shows "\<forall>m\<in>set (up_part G h p @ down_part G p n). m < length (nodes G)"
proof
  fix m assume "m \<in> set (up_part G h p @ down_part G p n)"
  then have "(m, h) \<in> (edge_rel G)\<^sup>+ \<or> (m, n) \<in> (edge_rel G)\<^sup>+"
    using up_chain_Cons(5)[OF ct assms(2)] down_part_props(2)[OF ct assms(3)] by auto
  then show "m < length (nodes G)"
    using ct_trancl_less[OF ct, of m h] ct_trancl_less[OF ct, of m n] by auto
qed

lemma ct_head_path:
  assumes ct: "constituency_tree G" and n: "terminal G n" and ih: "is_head G n p h"
  shows "shortest_path G h n = Inr (h # up_part G h p @ down_part G p n @ [n])"
    and "simple_path (adjacent G) (h # up_part G h p @ down_part G p n @ [n]) h n"
proof -
  note f = is_head_facts[OF ct n ih]
  show sp: "simple_path (adjacent G) (h # up_part G h p @ down_part G p n @ [n]) h n"
    by (rule ct_tree_path[OF ct f(2) f(1) f(5)])
  have "h < length (nodes G)" "n < length (nodes G)"
    using ct_terminal[OF ct] f(3) n by auto
  from ct_shortest_path[OF ct sp this]
  show "shortest_path G h n = Inr (h # up_part G h p @ down_part G p n @ [n])" .
qed

lemma ct_dep_path:
  assumes ct: "constituency_tree G" and n: "terminal G n" and ih: "is_head G n p h"
  shows "shortest_path G n h = Inr (n # up_part G n p @ down_part G p h @ [h])"
    and "simple_path (adjacent G) (n # up_part G n p @ down_part G p h @ [h]) n h"
proof -
  note f = is_head_facts[OF ct n ih]
  show sp: "simple_path (adjacent G) (n # up_part G n p @ down_part G p h @ [h]) n h"
    using f(5) by (intro ct_tree_path[OF ct f(1) f(2)]) blast
  have "h < length (nodes G)" "n < length (nodes G)"
    using ct_terminal[OF ct] f(3) n by auto
  from ct_shortest_path[OF ct sp this(2,1)]
  show "shortest_path G n h = Inr (n # up_part G n p @ down_part G p h @ [h])" .
qed

lemma edge_label_spec:
  assumes ct: "constituency_tree G" and r: "getRoot G = Inr r"
    and n: "terminal G n" "n \<noteq> r" and ih: "is_head G n p h"
    and hd_T: "h \<noteq> r \<Longrightarrow> getHeadDepTree T h = Inr (head_of G h)"
  shows "\<exists>c. edge_label G T r h n = Inr c
           \<and> non_terminals c = map (type_of G) (up_part G h p @ down_part G p n)
           \<and> list_all2 (depth_ok G r) (up_part G h p @ down_part G p n) (depths c)
           \<and> (h = r \<longrightarrow> special_index c = 0)
           \<and> (h \<noteq> r \<longrightarrow> special_index c = int (length (up_part G h p)) - 1
                \<and> (\<exists>ph. simple_path (adjacent G) ph h (head_of G h)
                      \<and> special_index c = last_shared_index (up_part G h p @ down_part G p n) (inner ph)))"
proof -
  note f = is_head_facts[OF ct n(1) ih]
  note hp = ct_head_path[OF ct n(1) ih]
  let ?U = "up_part G h p" and ?D = "down_part G p n"
  have inn: "inner (h # ?U @ ?D @ [n]) = ?U @ ?D"
    using inner_path[of h "?U @ ?D" n] by simp
  have rN: "r < length (nodes G)"
    using ct_terminal[OF ct, of r] getRoot_spec(1)[OF ct_distinct_ids[OF ct] r] by simp
  note sb = spine_bounds[OF ct f(2) f(1)]
  show ?thesis
  proof (cases "h = r")
    case True
    from spine_label_ok[OF ct rN sb, of 0] obtain c where
      c: "spine_label G r (?U @ ?D) 0 = Inr c" "non_terminals c = map (type_of G) (?U @ ?D)"
         "special_index c = 0" "list_all2 (depth_ok G r) (?U @ ?D) (depths c)" by blast
    have "edge_label G T r h n = Inr c"
      by (simp add: edge_label_def if_P[OF True] hp(1) inn c(1))
    with c True show ?thesis by auto
  next
    case False
    let ?hh = "head_of G h"
    from head_of_props(4)[OF ct r f(3) False] obtain q where ihh: "is_head G h q ?hh" by blast
    note g = is_head_facts[OF ct f(3) ihh]
    note hq = ct_dep_path[OF ct f(3) ihh]
    note qp = head_of_head_above[OF ct n(1) ih ihh]
    let ?W = "up_part G p q" and ?E = "down_part G q ?hh"
    have uh: "up_part G h q = ?U @ ?W"
    proof -
      have "up_chain (parent G) h q = up_chain (parent G) h p @ tl (up_chain (parent G) p q)"
        using up_chain_compose[OF ct, of q p h] qp f(2) by (simp add: trancl_into_rtrancl)
      moreover have "up_chain (parent G) h p \<noteq> []"
        using up_chain_props[OF ct trancl_into_rtrancl[OF f(2)]] by (auto dest: walk_nonempty)
      ultimately show ?thesis by (simp add: up_part_def)
    qed
    let ?sh = "?U @ ?W @ ?E"
    have innh: "inner (h # ?U @ ?W @ ?E @ [?hh]) = ?sh"
      using inner_path[of h ?sh ?hh] by simp
    note U = up_chain_Cons[OF ct f(2)]
    have disj: "set ?D \<inter> set ?sh = {}"
    proof (rule ccontr)
      assume "set ?D \<inter> set ?sh \<noteq> {}"
      then obtain x where xD: "x \<in> set ?D" and xs: "x \<in> set ?sh" by auto
      from xD have x: "(p, x) \<in> (edge_rel G)\<^sup>+" "(x, n) \<in> (edge_rel G)\<^sup>+"
        using down_part_props(2)[OF ct f(1)] by auto
      from xs have "x \<in> set (up_part G h q) \<or> x \<in> set ?E" using uh by auto
      then show False
      proof
        assume "x \<in> set (up_part G h q)"
        then have "(x, h) \<in> (edge_rel G)\<^sup>+" using up_chain_Cons(5)[OF ct g(1)] by simp
        with f(5)[of x] x have "x = p" by (simp add: trancl_into_rtrancl)
        with x(1) ct_trancl_less[OF ct, of p p] show False by simp
      next
        assume "x \<in> set ?E"
        then have "(x, ?hh) \<in> (edge_rel G)\<^sup>+" using down_part_props(2)[OF ct g(2)] by simp
        with x(1) have "(p, ?hh) \<in> (edge_rel G)\<^sup>*" by (meson trancl_into_rtrancl trancl_trans)
        from f(6)[OF g(3) this] g(4) f(4) show False by simp
      qed
    qed
    have filt: "filter (\<lambda>m. m \<in> set ?sh) (?U @ ?D) = ?U"
      using disj by (intro index_loop_prefix[OF U(2) U(4)]) auto
    have io: "index_of ?sh (last ?U) = length ?U - 1"
      using U(2,4) by (simp add: index_of_append_in index_of_last)
    obtain u us where us: "?U = u # us" using U(2) by (cases ?U) auto
    have il: "index_loop (?U @ ?D) ?sh = Some (length ?U - 1)"
      unfolding index_loop_eq filt using io us by simp
    have ls: "last_shared_index (?U @ ?D) ?sh = int (length ?U - 1)"
      unfolding last_shared_index_def filt using io us by simp
    from spine_label_ok[OF ct rN sb, of "int (length ?U - 1)"] obtain c where
      c: "spine_label G r (?U @ ?D) (int (length ?U - 1)) = Inr c"
         "non_terminals c = map (type_of G) (?U @ ?D)"
         "special_index c = int (length ?U - 1)"
         "list_all2 (depth_ok G r) (?U @ ?D) (depths c)" by blast
    have "edge_label G T r h n = Inr c"
      using False hd_T hp(1) hq(1) c(1) il
      by (simp add: edge_label_def inn innh uh Let_def)
    moreover have "int (length ?U - 1) = int (length ?U) - 1" using us by simp
    moreover have "simple_path (adjacent G) (h # up_part G h q @ ?E @ [?hh]) h ?hh
                   \<and> special_index c = last_shared_index (?U @ ?D) (inner (h # up_part G h q @ ?E @ [?hh]))"
      using hq(2) c(3) ls by (simp add: innh uh)
    ultimately show ?thesis using c False by auto
  qed
qed

subsection \<open>The labelling loop\<close>

lemma getHeadDepTree_keys:
  "map fst (edges T1) = map fst (edges T) \<Longrightarrow> getHeadDepTree T1 n = getHeadDepTree T n"
  by (simp add: getHeadDepTree_def in_edges_def)

lemma edge_label_keys:
  "map fst (edges T1) = map fst (edges T) \<Longrightarrow> edge_label G T1 r h n = edge_label G T r h n"
  using getHeadDepTree_keys[of T1 T h] by (simp add: edge_label_def)

lemma set_complex_edge_spec:
  assumes "(h, n) \<in> set (map fst (edges T))"
  shows "\<exists>T1. set_complex_edge T h n c = Inr T1 \<and> map fst (edges T1) = map fst (edges T)
          \<and> nodes T1 = nodes T
          \<and> (\<forall>(e, d)\<in>set (edges T1). if e = (h, n) then complex_edge d = Some c
                                         else (e, d) \<in> set (edges T))"
proof -
  define f :: "(nat \<times> nat) \<times> edge_data \<Rightarrow> (nat \<times> nat) \<times> edge_data" where
    "f = (\<lambda>(e, d). if e = (h, n)
              then (e, d\<lparr>complex_edge := Some c, complex_edge_str := Some (str_label c)\<rparr>)
              else (e, d))"
  have f1: "fst (f x) = fst x" for x by (cases x) (simp add: f_def)
  have f2: "f x = x" if "fst x \<noteq> (h, n)" for x using that by (cases x) (simp add: f_def)
  have f3: "complex_edge (snd (f x)) = Some c" if "fst x = (h, n)" for x
    using that by (cases x) (simp add: f_def)
  define T1 where "T1 = T\<lparr>edges := map f (edges T)\<rparr>"
  have "set_complex_edge T h n c = Inr T1"
    using assms unfolding set_complex_edge_def T1_def f_def by simp
  moreover have "map fst (edges T1) = map fst (edges T)"
    by (simp add: T1_def f1 comp_def)
  moreover have "nodes T1 = nodes T" by (simp add: T1_def)
  moreover have "\<forall>(e, d)\<in>set (edges T1). if e = (h, n) then complex_edge d = Some c
                                         else (e, d) \<in> set (edges T)"
  proof (clarify)
    fix e d assume "(e, d) \<in> set (edges T1)"
    then obtain x where x: "x \<in> set (edges T)" "(e, d) = f x" by (auto simp: T1_def)
    show "if e = (h, n) then complex_edge d = Some c else (e, d) \<in> set (edges T)"
    proof (cases "fst x = (h, n)")
      case True
      from f3[OF True] f1[of x] x(2) True show ?thesis by (metis fst_conv snd_conv)
    next
      case False
      from f2[OF False] x f1[of x] False show ?thesis by (metis fst_conv)
    qed
  qed
  ultimately show ?thesis by blast
qed

lemma label_loop_spec:
  assumes ok: "\<And>T1 n. map fst (edges T1) = K \<Longrightarrow> n \<in> set ns0 \<Longrightarrow>
                 (H n, n) \<in> set K \<and> getHeadDepTree T1 n = Inr (H n)
                 \<and> edge_label G T1 r (H n) n = Inr (L n)"
  shows "set ns \<subseteq> set ns0 \<Longrightarrow> map fst (edges T) = K \<Longrightarrow>
         \<exists>T'. label_loop G T r ns = Inr T' \<and> map fst (edges T') = K \<and> nodes T' = nodes T
           \<and> (\<forall>((h, n), d)\<in>set (edges T').
                 if n \<in> set ns \<and> h = H n then complex_edge d = Some (L n)
                 else ((h, n), d) \<in> set (edges T))"
proof (induction ns arbitrary: T)
  case Nil
  then show ?case by auto
next
  case (Cons n ns)
  from ok[OF Cons.prems(2), of n] Cons.prems(1)
  have n: "(H n, n) \<in> set K" "getHeadDepTree T n = Inr (H n)"
    "edge_label G T r (H n) n = Inr (L n)" by auto
  from set_complex_edge_spec[of "H n" n T "L n"] n(1) Cons.prems(2) obtain T1 where
    T1: "set_complex_edge T (H n) n (L n) = Inr T1" "map fst (edges T1) = K" "nodes T1 = nodes T"
        "\<forall>(e, d)\<in>set (edges T1). if e = (H n, n) then complex_edge d = Some (L n)
                                   else (e, d) \<in> set (edges T)" by auto
  from Cons.IH[OF _ T1(2)] Cons.prems(1) obtain T' where
    T': "label_loop G T1 r ns = Inr T'" "map fst (edges T') = K" "nodes T' = nodes T1"
        "\<forall>((h, m), d)\<in>set (edges T').
            if m \<in> set ns \<and> h = H m then complex_edge d = Some (L m)
            else ((h, m), d) \<in> set (edges T1)" by auto
  have "label_loop G T r (n # ns) = Inr T'" by (simp add: n T1(1) T'(1))
  moreover have "\<forall>((h, m), d)\<in>set (edges T').
            if m \<in> set (n # ns) \<and> h = H m then complex_edge d = Some (L m)
            else ((h, m), d) \<in> set (edges T)"
  proof (clarify)
    fix h m d assume e: "((h, m), d) \<in> set (edges T')"
    show "if m \<in> set (n # ns) \<and> h = H m then complex_edge d = Some (L m)
          else ((h, m), d) \<in> set (edges T)"
    proof (cases "m \<in> set ns \<and> h = H m")
      case True
      with T'(4) e show ?thesis by auto
    next
      case False
      with T'(4) e have e1: "((h, m), d) \<in> set (edges T1)" by auto
      show ?thesis
      proof (cases "(h, m) = (H n, n)")
        case True
        with T1(4) e1 show ?thesis by auto
      next
        case ne: False
        with T1(4) e1 have "((h, m), d) \<in> set (edges T)" by auto
        with False ne show ?thesis by auto
      qed
    qed
  qed
  ultimately show ?case using T'(2,3) T1(3) by (intro exI[of _ T']) simp
qed

subsection \<open>The labelled dependency tree\<close>

lemma labelDepTree_spec:
  assumes ct: "constituency_tree G" and en: "enrichAstWithDeps G = Some (Inr G1)"
  shows "\<exists>r T. getRoot G = Inr r \<and> labelDepTree G (getDependencyTree G1) = Inr T
           \<and> nodes T = nodes (getDependencyTree G1)
           \<and> map fst (edges T) = map fst (edges (getDependencyTree G1))
           \<and> (\<forall>((h, n), d)\<in>set (edges T).
                 terminal G n \<and> n \<noteq> r \<and> h = head_of G n
                 \<and> (\<exists>c. complex_edge d = Some c
                        \<and> edge_label G (getDependencyTree G1) r h n = Inr c))"
proof -
  from en obtain r where r: "getRoot G = Inr r"
    by (auto simp: enrichAstWithDeps_def split: sum.splits)
  note es = enrichAstWithDeps_spec[OF ct r]
  let ?ns = "other_terminals G r"
  let ?ds = "dep_list G ?ns"
  from en es(1) have G1: "G1 = with_deps G ?ds" by simp
  let ?T0 = "getDependencyTree G1"
  let ?K = "map fst (edges ?T0)"
  note ot = other_terminals_props[OF ct_distinct_ids[OF ct], of r]
  have K: "set ?K = set ?ds"
    using dep_tree_edges_mset[OF ct es(2)] unfolding G1 by (metis set_mset_mset)
  have hd0: "getHeadDepTree ?T0 m = Inr (head_of G m)" if "terminal G m" "m \<noteq> r" for m
    unfolding G1 by (rule getHeadDepTree_spec(2)[OF ct r that])
  have lab: "\<exists>c. edge_label G ?T0 r (head_of G n) n = Inr c" if "terminal G n" "n \<noteq> r" for n
  proof -
    from head_of_props[OF ct r that] obtain p where
      ih: "is_head G n p (head_of G n)" and th: "terminal G (head_of G n)" by blast
    from edge_label_spec[OF ct r that ih hd0[OF th]] show ?thesis by blast
  qed
  have ok: "(head_of G n, n) \<in> set ?K \<and> getHeadDepTree T1 n = Inr (head_of G n)
            \<and> edge_label G T1 r (head_of G n) n = Inr (label_of G ?T0 r n)"
    if k: "map fst (edges T1) = ?K" and n: "n \<in> set ?ns" for T1 n
  proof -
    from n ot(2) have tn: "terminal G n" "n \<noteq> r" by auto
    have "(head_of G n, n) \<in> set ?K" using K n by (auto simp: dep_list_def)
    moreover have "getHeadDepTree T1 n = Inr (head_of G n)"
      using getHeadDepTree_keys[OF k] hd0[OF tn] by simp
    moreover have "edge_label G T1 r (head_of G n) n = Inr (label_of G ?T0 r n)"
      using edge_label_keys[OF k] lab[OF tn] by (auto simp: label_of_def)
    ultimately show ?thesis by simp
  qed
  have "\<exists>T'. label_loop G ?T0 r ?ns = Inr T' \<and> map fst (edges T') = ?K \<and> nodes T' = nodes ?T0
           \<and> (\<forall>((h, n), d)\<in>set (edges T').
                 if n \<in> set ?ns \<and> h = head_of G n then complex_edge d = Some (label_of G ?T0 r n)
                 else ((h, n), d) \<in> set (edges ?T0))"
    by (rule label_loop_spec[of ?K ?ns "head_of G" G r "label_of G ?T0 r" ?ns ?T0, OF ok]) simp_all
  then obtain T where T: "label_loop G ?T0 r ?ns = Inr T" "map fst (edges T) = ?K" "nodes T = nodes ?T0"
    "\<forall>((h, n), d)\<in>set (edges T).
        if n \<in> set ?ns \<and> h = head_of G n then complex_edge d = Some (label_of G ?T0 r n)
        else ((h, n), d) \<in> set (edges ?T0)" by blast
  have "terminal G n \<and> n \<noteq> r \<and> h = head_of G n
          \<and> (\<exists>c. complex_edge d = Some c \<and> edge_label G ?T0 r h n = Inr c)"
    if e: "((h, n), d) \<in> set (edges T)" for h n d
  proof -
    from e have "(h, n) \<in> set (map fst (edges T))" by force
    with T(2) K have "(h, n) \<in> set ?ds" by simp
    then have n: "n \<in> set ?ns" "h = head_of G n" by (auto simp: dep_list_def)
    with ot(2) have tn: "terminal G n" "n \<noteq> r" by auto
    from T(4) e n have "complex_edge d = Some (label_of G ?T0 r n)" by auto
    moreover from lab[OF tn] have "edge_label G ?T0 r h n = Inr (label_of G ?T0 r n)"
      by (auto simp: label_of_def n(2))
    ultimately show ?thesis using tn n(2) by simp
  qed
  then have "\<forall>((h, n), d)\<in>set (edges T).
                 terminal G n \<and> n \<noteq> r \<and> h = head_of G n
                 \<and> (\<exists>c. complex_edge d = Some c \<and> edge_label G ?T0 r h n = Inr c)"
    by blast
  moreover have "labelDepTree G ?T0 = Inr T" using r T(1) by (simp add: labelDepTree_def)
  ultimately show ?thesis using r T(2,3) by (intro exI[of _ r] exI[of _ T]) simp
qed

lemma labelled_edges:
  assumes ct: "constituency_tree G" and ne: "terminals G \<noteq> []"
  shows "\<exists>r T. getRoot G = Inr r \<and> labelled_tree G = Some (Inr T)
           \<and> (\<forall>h n d. ((h, n), d) \<in> set (edges T) \<longrightarrow>
                 (\<exists>c p. complex_edge d = Some c \<and> label_facts G r T h n p c))"
proof -
  from getRoot_ex[OF ne] obtain r where r: "getRoot G = Inr r" by blast
  note es = enrichAstWithDeps_spec[OF ct r]
  let ?G1 = "with_deps G (dep_list G (other_terminals G r))"
  let ?T0 = "getDependencyTree ?G1"
  from labelDepTree_spec[OF ct es(1)] obtain r' T where
    T0: "getRoot G = Inr r'" "labelDepTree G ?T0 = Inr T"
       "map fst (edges T) = map fst (edges ?T0)"
       "\<forall>((h, n), d)\<in>set (edges T).
           terminal G n \<and> n \<noteq> r' \<and> h = head_of G n
           \<and> (\<exists>c. complex_edge d = Some c \<and> edge_label G ?T0 r' h n = Inr c)" by blast
  from T0(1) r have rr: "r' = r" by simp
  note T = T0(2,3) T0(4)[unfolded rr]
  have lt: "labelled_tree G = Some (Inr T)" by (simp add: labelled_tree_def es(1) T(1))
  have hd0: "getHeadDepTree ?T0 m = Inr (head_of G m)" if "terminal G m" "m \<noteq> r" for m
    by (rule getHeadDepTree_spec(2)[OF ct r that])
  have "\<exists>c p. complex_edge d = Some c \<and> label_facts G r T h n p c"
    if e: "((h, n), d) \<in> set (edges T)" for h n d
  proof -
    from T(3) e have "terminal G n \<and> n \<noteq> r \<and> h = head_of G n
           \<and> (\<exists>c. complex_edge d = Some c \<and> edge_label G ?T0 r h n = Inr c)" by fast
    then obtain c where
      n: "terminal G n" "n \<noteq> r" and h: "h = head_of G n"
      and c: "complex_edge d = Some c" "edge_label G ?T0 r h n = Inr c" by blast
    from head_of_props(2,4)[OF ct r n] h obtain p where
      ih: "is_head G n p h" and th: "terminal G h" by blast
    note f = is_head_facts[OF ct n(1) ih]
    from edge_label_spec[OF ct r n ih hd0[OF th]] obtain c' where
      c': "edge_label G ?T0 r h n = Inr c'"
      "non_terminals c' = map (type_of G) (up_part G h p @ down_part G p n)"
      "list_all2 (depth_ok G r) (up_part G h p @ down_part G p n) (depths c')"
      "h = r \<longrightarrow> special_index c' = 0"
      "h \<noteq> r \<longrightarrow> special_index c' = int (length (up_part G h p)) - 1
                \<and> (\<exists>ph. simple_path (adjacent G) ph h (head_of G h)
                      \<and> special_index c'
                          = last_shared_index (up_part G h p @ down_part G p n) (inner ph))"
      by blast
    from c(2) c'(1) have cc: "c' = c" by simp
    note lab = c'(2-5)[unfolded cc]
    have g: "h \<noteq> r \<longrightarrow> getHeadDepTree T h = Inr (head_of G h)"
      using getHeadDepTree_keys[OF T(2), of h] hd0[OF th] by simp
    have "label_facts G r T h n p c"
      unfolding label_facts_def
      using ih n ct_head_path(2)[OF ct n(1) ih] up_chain_Cons(2)[OF ct f(2)] lab g
      by (intro conjI) (assumption | blast)+
    with c(1) show ?thesis by blast
  qed
  with r lt show ?thesis by blast
qed

lemma label_facts_inner:
  "inner (h # up_part G h p @ down_part G p n @ [n]) = up_part G h p @ down_part G p n"
  using inner_path[of h "up_part G h p @ down_part G p n" n] by simp

lemma example_terminals: "terminals example_graph \<noteq> []"
  by code_simp

subsection \<open>What a successful labelling returns\<close>

lemma map_err_Inr:
  "map_err f xs = Inr ys \<Longrightarrow> (\<And>x y. f x = Inr y \<Longrightarrow> y = g x) \<Longrightarrow> ys = map g xs"
proof (induction xs arbitrary: ys)
  case Nil
  then show ?case by simp
next
  case (Cons x xs)
  from Cons.prems(1) obtain y zs where y: "f x = Inr y" and zs: "map_err f xs = Inr zs"
    and ys: "ys = y # zs"
    by (auto split: sum.splits)
  from Cons.IH[OF zs Cons.prems(2)] Cons.prems(2)[OF y] ys show ?case by simp
qed

lemma spine_label_sound:
  assumes "spine_label G r spine idx = Inr c"
  shows "non_terminals c = map (type_of G) spine" and "special_index c = idx"
proof -
  let ?f = "\<lambda>m. case attr_of G m of Inl e \<Rightarrow> Inl e | Inr a \<Rightarrow> Inr (type a)"
  from assms obtain tys ds where tys: "map_err ?f spine = Inr tys"
    and c: "c = \<lparr>non_terminals = tys, depths = ds, special_index = idx\<rparr>"
    by (auto simp: spine_label_def split: sum.splits)
  have "y = type_of G x" if "?f x = Inr y" for x y
    using that by (auto simp: attr_of_def type_of_def split: option.splits)
  from map_err_Inr[OF tys this] c show "non_terminals c = map (type_of G) spine" by simp
  from c show "special_index c = idx" by simp
qed

lemma shortest_path_sound:
  assumes "shortest_path G u v = Inr p"
  shows "simple_path (adjacent G) p u v"
proof -
  from assms have "sp_levels G v [u] [[u]] = Some p"
    by (auto simp: shortest_path_def split: if_splits option.splits)
  moreover have "path_inv G u [u] [[u]]" by (simp add: path_inv_def)
  ultimately show ?thesis by (rule sp_levels_sound[rotated])
qed

lemma last_shared_index_loop:
  "(case index_loop spine_n spine_head of None \<Rightarrow> int (length spine_n) - 1 | Some i \<Rightarrow> int i)
     = last_shared_index spine_n spine_head"
  by (simp add: index_loop_eq last_shared_index_def split: list.splits)

lemma edge_label_sound:
  assumes "edge_label G T r h n = Inr c"
  shows "\<exists>pn. shortest_path G h n = Inr pn \<and> simple_path (adjacent G) pn h n
           \<and> non_terminals c = map (type_of G) (inner pn)
           \<and> (h = r \<longrightarrow> special_index c = 0)
           \<and> (h \<noteq> r \<longrightarrow>
                (\<exists>h_head ph. getHeadDepTree T h = Inr h_head
                   \<and> shortest_path G h h_head = Inr ph
                   \<and> simple_path (adjacent G) ph h h_head
                   \<and> special_index c = last_shared_index (inner pn) (inner ph)))"
proof (cases "h = r")
  case True
  with assms obtain pn where pn: "shortest_path G h n = Inr pn"
    and sl: "spine_label G r (inner pn) 0 = Inr c"
    by (auto simp: edge_label_def split: sum.splits)
  from spine_label_sound[OF sl] shortest_path_sound[OF pn] pn True show ?thesis by simp
next
  case False
  with assms obtain h_head ph pn where hh: "getHeadDepTree T h = Inr h_head"
    and ph: "shortest_path G h h_head = Inr ph" and pn: "shortest_path G h n = Inr pn"
    and sl: "spine_label G r (inner pn)
               (case index_loop (inner pn) (inner ph) of
                  None \<Rightarrow> int (length (inner pn)) - 1 | Some i \<Rightarrow> int i) = Inr c"
    by (auto simp: edge_label_def Let_def split: sum.splits)
  note s = spine_label_sound[OF sl, unfolded last_shared_index_loop]
  from s shortest_path_sound[OF pn] shortest_path_sound[OF ph] hh ph pn False
  show ?thesis by blast
qed

lemma set_complex_edge_sound:
  assumes "set_complex_edge T h n c = Inr T1"
  shows "(h, n) \<in> set (map fst (edges T))" and "map fst (edges T1) = map fst (edges T)"
    and "\<And>d. ((h, n), d) \<in> set (edges T1) \<Longrightarrow> complex_edge d = Some c"
    and "\<And>e d. e \<noteq> (h, n) \<Longrightarrow> (e, d) \<in> set (edges T1) \<longleftrightarrow> (e, d) \<in> set (edges T)"
proof -
  define f :: "(nat \<times> nat) \<times> edge_data \<Rightarrow> (nat \<times> nat) \<times> edge_data" where
    "f = (\<lambda>(e, d). if e = (h, n)
              then (e, d\<lparr>complex_edge := Some c, complex_edge_str := Some (str_label c)\<rparr>)
              else (e, d))"
  have f1: "fst (f x) = fst x" for x by (cases x) (simp add: f_def)
  have f2: "f x = x" if "fst x \<noteq> (h, n)" for x using that by (cases x) (simp add: f_def)
  have f3: "complex_edge (snd (f x)) = Some c" if "fst x = (h, n)" for x
    using that by (cases x) (simp add: f_def)
  from assms show k: "(h, n) \<in> set (map fst (edges T))"
    by (simp add: set_complex_edge_def split: if_splits)
  with assms have T1: "T1 = T\<lparr>edges := map f (edges T)\<rparr>"
    unfolding set_complex_edge_def f_def by simp
  show "map fst (edges T1) = map fst (edges T)" by (simp add: T1 f1 comp_def)
  show "complex_edge d = Some c" if "((h, n), d) \<in> set (edges T1)" for d
  proof -
    from that obtain x where x: "x \<in> set (edges T)" "f x = ((h, n), d)" by (auto simp: T1)
    from x(2) f1[of x] have "fst x = (h, n)" by simp
    from f3[OF this] x(2) show ?thesis by simp
  qed
  show "(e, d) \<in> set (edges T1) \<longleftrightarrow> (e, d) \<in> set (edges T)" if "e \<noteq> (h, n)" for e d
  proof
    assume "(e, d) \<in> set (edges T1)"
    then obtain x where x: "x \<in> set (edges T)" "f x = (e, d)" by (auto simp: T1)
    from x(2) f1[of x] that have "fst x \<noteq> (h, n)" by auto
    from f2[OF this] x show "(e, d) \<in> set (edges T)" by simp
  next
    assume a: "(e, d) \<in> set (edges T)"
    from f2[of "(e, d)"] that have "f (e, d) = (e, d)" by simp
    with a show "(e, d) \<in> set (edges T1)" unfolding T1 by force
  qed
qed

lemma label_loop_sound:
  "label_loop G T r ns = Inr T' \<Longrightarrow> distinct ns \<Longrightarrow>
     map fst (edges T') = map fst (edges T)
     \<and> (\<forall>n\<in>set ns. \<exists>h c. getHeadDepTree T n = Inr h \<and> edge_label G T r h n = Inr c
            \<and> (h, n) \<in> set (map fst (edges T))
            \<and> (\<forall>d. ((h, n), d) \<in> set (edges T') \<longrightarrow> complex_edge d = Some c))
     \<and> (\<forall>e d. snd e \<notin> set ns \<longrightarrow> ((e, d) \<in> set (edges T') \<longleftrightarrow> (e, d) \<in> set (edges T)))"
proof (induction ns arbitrary: T)
  case Nil
  then show ?case by simp
next
  case (Cons n ns)
  from Cons.prems(1) obtain h c T1 where h: "getHeadDepTree T n = Inr h"
    and c: "edge_label G T r h n = Inr c" and T1: "set_complex_edge T h n c = Inr T1"
    and lp: "label_loop G T1 r ns = Inr T'"
    by (auto split: sum.splits)
  note sc = set_complex_edge_sound[OF T1]
  from Cons.prems(2) have nn: "n \<notin> set ns" and di: "distinct ns" by simp_all
  from Cons.IH[OF lp di] have
    k: "map fst (edges T') = map fst (edges T1)"
    and ih: "\<And>m. m \<in> set ns \<Longrightarrow> \<exists>h c. getHeadDepTree T1 m = Inr h \<and> edge_label G T1 r h m = Inr c
            \<and> (h, m) \<in> set (map fst (edges T1))
            \<and> (\<forall>d. ((h, m), d) \<in> set (edges T') \<longrightarrow> complex_edge d = Some c)"
    and un: "\<And>e d. snd e \<notin> set ns \<Longrightarrow> (e, d) \<in> set (edges T') \<longleftrightarrow> (e, d) \<in> set (edges T1)"
    by blast+
  have keys: "map fst (edges T') = map fst (edges T)" using k sc(2) by simp
  have here: "\<exists>h c. getHeadDepTree T m = Inr h \<and> edge_label G T r h m = Inr c
            \<and> (h, m) \<in> set (map fst (edges T))
            \<and> (\<forall>d. ((h, m), d) \<in> set (edges T') \<longrightarrow> complex_edge d = Some c)"
    if m: "m \<in> set (n # ns)" for m
  proof (cases "m = n")
    case True
    have "complex_edge d = Some c" if "((h, n), d) \<in> set (edges T')" for d
    proof -
      from un[of "(h, n)" d] nn that have "((h, n), d) \<in> set (edges T1)" by simp
      then show ?thesis by (rule sc(3))
    qed
    with h c sc(1) True show ?thesis by blast
  next
    case False
    with m have "m \<in> set ns" by simp
    from ih[OF this] show ?thesis
      unfolding getHeadDepTree_keys[OF sc(2)] edge_label_keys[OF sc(2)] sc(2) .
  qed
  have rest: "(e, d) \<in> set (edges T') \<longleftrightarrow> (e, d) \<in> set (edges T)"
    if "snd e \<notin> set (n # ns)" for e d
  proof -
    from that have "snd e \<notin> set ns" "e \<noteq> (h, n)" by auto
    from un[OF this(1)] sc(4)[OF this(2)] show ?thesis by simp
  qed
  from keys here rest show ?case by blast
qed

lemma edge_complex_label:
  assumes "(h, n) \<in> set (map fst (edges T))"
    and "\<And>d. ((h, n), d) \<in> set (edges T) \<Longrightarrow> complex_edge d = Some c"
  shows "edge_complex T h n = Inr c"
proof -
  from assms(1) obtain d where "map_of (edges T) (h, n) = Some d"
    by (metis list.set_map map_of_eq_None_iff not_None_eq)
  moreover from this have "((h, n), d) \<in> set (edges T)" by (rule map_of_SomeD)
  ultimately show ?thesis using assms(2) by (simp add: edge_complex_def)
qed

lemma labelDepTree_sound:
  assumes d: "distinct (node_ids G)" and r: "getRoot G = Inr r"
    and ok: "labelDepTree G T = Inr T'"
  shows "map fst (edges T') = map fst (edges T)"
    and "\<And>n. terminal G n \<Longrightarrow> n \<noteq> r \<Longrightarrow>
           \<exists>h c. getHeadDepTree T n = Inr h \<and> edge_label G T r h n = Inr c
             \<and> edge_complex T' h n = Inr c"
proof -
  note ot = other_terminals_props[OF d, of r]
  from ok r have lp: "label_loop G T r (other_terminals G r) = Inr T'"
    by (simp add: labelDepTree_def)
  from label_loop_sound[OF lp ot(1)] have
    k: "map fst (edges T') = map fst (edges T)"
    and ea: "\<And>n. n \<in> set (other_terminals G r) \<Longrightarrow>
            \<exists>h c. getHeadDepTree T n = Inr h \<and> edge_label G T r h n = Inr c
            \<and> (h, n) \<in> set (map fst (edges T))
            \<and> (\<forall>d. ((h, n), d) \<in> set (edges T') \<longrightarrow> complex_edge d = Some c)"
    by blast+
  show "map fst (edges T') = map fst (edges T)" by (rule k)
  fix n assume "terminal G n" "n \<noteq> r"
  then have "n \<in> set (other_terminals G r)" using ot(2) by simp
  from ea[OF this] obtain h c where h: "getHeadDepTree T n = Inr h"
    and c: "edge_label G T r h n = Inr c" and e: "(h, n) \<in> set (map fst (edges T'))"
    and l: "\<And>d. ((h, n), d) \<in> set (edges T') \<Longrightarrow> complex_edge d = Some c"
    unfolding k by blast
  from edge_complex_label[OF e l] h c
  show "\<exists>h c. getHeadDepTree T n = Inr h \<and> edge_label G T r h n = Inr c
             \<and> edge_complex T' h n = Inr c" by blast
qed

lemma labelled_tree_keys:
  assumes ct: "constituency_tree G" and ne: "terminals G \<noteq> []"
  shows "\<exists>r G1 T1. getRoot G = Inr r \<and> enrichAstWithDeps G = Some (Inr G1)
           \<and> labelDepTree G (getDependencyTree G1) = Inr T1
           \<and> labelled_tree G = Some (Inr T1)
           \<and> mset (map fst (edges T1)) = mset (map (\<lambda>n. (head_of G n, n)) (other_terminals G r))
           \<and> (\<forall>n. terminal G n \<and> n \<noteq> r \<longrightarrow>
                 getHeadDepTree (getDependencyTree G1) n = Inr (head_of G n))"
proof -
  from getRoot_ex[OF ne] obtain r where r: "getRoot G = Inr r" by blast
  note es = enrichAstWithDeps_spec[OF ct r]
  let ?ds = "dep_list G (other_terminals G r)"
  let ?G1 = "with_deps G ?ds"
  let ?T0 = "getDependencyTree ?G1"
  from labelDepTree_spec[OF ct es(1)] obtain T1 where
    T1: "labelDepTree G ?T0 = Inr T1" "map fst (edges T1) = map fst (edges ?T0)" by blast
  have lt: "labelled_tree G = Some (Inr T1)" by (simp add: labelled_tree_def es(1) T1(1))
  have ms: "mset (map fst (edges T1)) = mset (map (\<lambda>n. (head_of G n, n)) (other_terminals G r))"
    unfolding T1(2) dep_tree_edges_mset[OF ct es(2)] by (simp add: dep_list_def)
  have hd0: "\<forall>n. terminal G n \<and> n \<noteq> r \<longrightarrow> getHeadDepTree ?T0 n = Inr (head_of G n)"
    using getHeadDepTree_spec(2)[OF ct r] by blast
  from r es(1) T1(1) lt ms hd0 show ?thesis by blast
qed

lemma labelled_edges_keys:
  assumes ct: "constituency_tree G" and ne: "terminals G \<noteq> []"
  shows "\<exists>r T. getRoot G = Inr r \<and> labelled_tree G = Some (Inr T)
           \<and> mset (map fst (edges T)) = mset (map (\<lambda>n. (head_of G n, n)) (other_terminals G r))
           \<and> (\<forall>h n d. ((h, n), d) \<in> set (edges T) \<longrightarrow>
                 (\<exists>c p. complex_edge d = Some c \<and> label_facts G r T h n p c))"
proof -
  from labelled_edges[OF ct ne] obtain r T where
    rt: "getRoot G = Inr r" "labelled_tree G = Some (Inr T)"
    and ed: "\<forall>h n d. ((h, n), d) \<in> set (edges T) \<longrightarrow>
                 (\<exists>c p. complex_edge d = Some c \<and> label_facts G r T h n p c)"
    by blast
  from labelled_tree_keys[OF ct ne] obtain r' T1 where
    k: "getRoot G = Inr r'" "labelled_tree G = Some (Inr T1)"
       "mset (map fst (edges T1)) = mset (map (\<lambda>n. (head_of G n, n)) (other_terminals G r'))"
    by blast
  from k(1,2) rt have "r' = r" "T1 = T" by simp_all
  with k(3) rt ed show ?thesis by blast
qed

text \<open>
  C4.  Let \<open>G\<close> be a constituency tree with at least one terminal and \<open>r\<close> its leftmost
  terminal.  Labelling the dependency tree of \<open>G\<close> returns a tree whose edges are the
  dependency edges, one from the head of \<open>n\<close> to \<open>n\<close> for every terminal \<open>n\<close> other than \<open>r\<close>.
  For any graph \<open>T\<close> on which \<open>labelDepTree\<close> returns, the dependency tree of \<open>G\<close> or another
  one, the result has the edges of \<open>T\<close>, and for every terminal \<open>n\<close> other than
  \<open>r\<close>, with \<open>h\<close> the head of \<open>n\<close> in \<open>T\<close>, the edge from \<open>h\<close> to \<open>n\<close> carries a label \<open>c\<close> such
  that, with \<open>pn\<close> the path from \<open>h\<close> to \<open>n\<close> in \<open>G\<close>: the non-terminals of \<open>c\<close> are the types of
  the nodes of \<open>pn\<close> without its two ends; if \<open>h = r\<close> the special index is 0; otherwise, with
  \<open>ph\<close> the path from \<open>h\<close> to the head of \<open>h\<close> in \<open>T\<close>, the special index is the position in the
  inside of \<open>ph\<close> of the last node of the inside of \<open>pn\<close> that occurs there, and the length of
  the inside of \<open>pn\<close> minus 1 when the two share no node.
\<close>

theorem edge_label_encoding:
  assumes "constituency_tree G" and "terminals G \<noteq> []"
  shows "\<exists>r G1 T1. getRoot G = Inr r \<and> enrichAstWithDeps G = Some (Inr G1)
           \<and> labelDepTree G (getDependencyTree G1) = Inr T1
           \<and> mset (map fst (edges T1)) = mset (map (\<lambda>n. (head_of G n, n)) (other_terminals G r))
           \<and> (\<forall>n. terminal G n \<and> n \<noteq> r \<longrightarrow>
                 getHeadDepTree (getDependencyTree G1) n = Inr (head_of G n))
           \<and> (\<forall>T T'. labelDepTree G T = Inr T' \<longrightarrow>
                 map fst (edges T') = map fst (edges T)
                 \<and> (\<forall>n. terminal G n \<and> n \<noteq> r \<longrightarrow>
                      (\<exists>h c pn. getHeadDepTree T n = Inr h \<and> edge_complex T' h n = Inr c
                         \<and> shortest_path G h n = Inr pn \<and> simple_path (adjacent G) pn h n
                         \<and> non_terminals c = map (type_of G) (inner pn)
                         \<and> (h = r \<longrightarrow> special_index c = 0)
                         \<and> (h \<noteq> r \<longrightarrow>
                              (\<exists>h_head ph. getHeadDepTree T h = Inr h_head
                                 \<and> shortest_path G h h_head = Inr ph
                                 \<and> simple_path (adjacent G) ph h h_head
                                 \<and> special_index c
                                     = last_shared_index (inner pn) (inner ph))))))"
proof -
  note ct = assms(1)
  from labelled_tree_keys[OF assms] obtain r G1 T1 where
    r: "getRoot G = Inr r" and nom: "enrichAstWithDeps G = Some (Inr G1)"
      "labelDepTree G (getDependencyTree G1) = Inr T1"
      "mset (map fst (edges T1)) = mset (map (\<lambda>n. (head_of G n, n)) (other_terminals G r))"
      "\<forall>n. terminal G n \<and> n \<noteq> r \<longrightarrow>
         getHeadDepTree (getDependencyTree G1) n = Inr (head_of G n)"
    by blast
  have gen: "map fst (edges T') = map fst (edges T)
      \<and> (\<forall>n. terminal G n \<and> n \<noteq> r \<longrightarrow>
            (\<exists>h c pn. getHeadDepTree T n = Inr h \<and> edge_complex T' h n = Inr c
               \<and> shortest_path G h n = Inr pn \<and> simple_path (adjacent G) pn h n
               \<and> non_terminals c = map (type_of G) (inner pn)
               \<and> (h = r \<longrightarrow> special_index c = 0)
               \<and> (h \<noteq> r \<longrightarrow>
                    (\<exists>h_head ph. getHeadDepTree T h = Inr h_head
                       \<and> shortest_path G h h_head = Inr ph
                       \<and> simple_path (adjacent G) ph h h_head
                       \<and> special_index c = last_shared_index (inner pn) (inner ph)))))"
    if ok: "labelDepTree G T = Inr T'" for T T'
  proof (intro conjI allI impI)
    note ls = labelDepTree_sound[OF ct_distinct_ids[OF ct] r ok]
    show "map fst (edges T') = map fst (edges T)" by (rule ls(1))
    fix n assume n: "terminal G n \<and> n \<noteq> r"
    then have "terminal G n" "n \<noteq> r" by simp_all
    from ls(2)[OF this] obtain h c where h: "getHeadDepTree T n = Inr h"
      and el: "edge_label G T r h n = Inr c" and ec: "edge_complex T' h n = Inr c" by blast
    from edge_label_sound[OF el] h ec
    show "\<exists>h c pn. getHeadDepTree T n = Inr h \<and> edge_complex T' h n = Inr c
               \<and> shortest_path G h n = Inr pn \<and> simple_path (adjacent G) pn h n
               \<and> non_terminals c = map (type_of G) (inner pn)
               \<and> (h = r \<longrightarrow> special_index c = 0)
               \<and> (h \<noteq> r \<longrightarrow>
                    (\<exists>h_head ph. getHeadDepTree T h = Inr h_head
                       \<and> shortest_path G h h_head = Inr ph
                       \<and> simple_path (adjacent G) ph h h_head
                       \<and> special_index c = last_shared_index (inner pn) (inner ph)))"
      by blast
  qed
  from r nom gen show ?thesis by blast
qed

theorem edge_label_encoding_witness:
  "(\<exists>r G1 T1. getRoot example_graph = Inr r \<and> enrichAstWithDeps example_graph = Some (Inr G1)
           \<and> labelDepTree example_graph (getDependencyTree G1) = Inr T1
           \<and> mset (map fst (edges T1))
                = mset (map (\<lambda>n. (head_of example_graph n, n)) (other_terminals example_graph r))
           \<and> (\<forall>n. terminal example_graph n \<and> n \<noteq> r \<longrightarrow>
                 getHeadDepTree (getDependencyTree G1) n = Inr (head_of example_graph n))
           \<and> (\<forall>T T'. labelDepTree example_graph T = Inr T' \<longrightarrow>
                 map fst (edges T') = map fst (edges T)
                 \<and> (\<forall>n. terminal example_graph n \<and> n \<noteq> r \<longrightarrow>
                      (\<exists>h c pn. getHeadDepTree T n = Inr h \<and> edge_complex T' h n = Inr c
                         \<and> shortest_path example_graph h n = Inr pn
                         \<and> simple_path (adjacent example_graph) pn h n
                         \<and> non_terminals c = map (type_of example_graph) (inner pn)
                         \<and> (h = r \<longrightarrow> special_index c = 0)
                         \<and> (h \<noteq> r \<longrightarrow>
                              (\<exists>h_head ph. getHeadDepTree T h = Inr h_head
                                 \<and> shortest_path example_graph h h_head = Inr ph
                                 \<and> simple_path (adjacent example_graph) ph h h_head
                                 \<and> special_index c
                                     = last_shared_index (inner pn) (inner ph)))))))
   \<and> (case labelDepTree example_graph self_headed_graph of Inl e \<Rightarrow> Inl e
        | Inr T' \<Rightarrow> edge_complex T' 3 10)
         = Inr \<lparr>non_terminals = [''function_definition'', ''block'', ''pass_statement''],
                depths = [0, 1, 2], special_index = 2\<rparr>
   \<and> getHeadDepTree self_headed_graph 10 = Inr 3
   \<and> getHeadDepTree self_headed_graph 3 = Inr 3
   \<and> shortest_path example_graph 3 10 = Inr [3, 1, 8, 9, 10]
   \<and> shortest_path example_graph 3 3 = Inr [3]
   \<and> filter (\<lambda>m. m \<in> set (inner [3::nat])) (inner [3, 1, 8, 9, 10]) = []
   \<and> last_shared_index (inner [3, 1, 8, 9, 10]) (inner [3]) = 2"
proof (rule conjI)
  show "(case labelDepTree example_graph self_headed_graph of Inl e \<Rightarrow> Inl e
        | Inr T' \<Rightarrow> edge_complex T' 3 10)
         = Inr \<lparr>non_terminals = [''function_definition'', ''block'', ''pass_statement''],
                depths = [0, 1, 2], special_index = 2\<rparr>
   \<and> getHeadDepTree self_headed_graph 10 = Inr 3
   \<and> getHeadDepTree self_headed_graph 3 = Inr 3
   \<and> shortest_path example_graph 3 10 = Inr [3, 1, 8, 9, 10]
   \<and> shortest_path example_graph 3 3 = Inr [3]
   \<and> filter (\<lambda>m. m \<in> set (inner [3::nat])) (inner [3, 1, 8, 9, 10]) = []
   \<and> last_shared_index (inner [3, 1, 8, 9, 10]) (inner [3]) = 2"
    by code_simp
qed (rule edge_label_encoding[OF example_graph_ct example_terminals])

text \<open>
  For the dependency tree of \<open>G\<close> itself the last case of C4 does not occur: the inside of
  the path from \<open>h\<close> to \<open>n\<close> and the inside of the path from \<open>h\<close> to its own head both
  contain the parent of \<open>h\<close>.
\<close>

lemma up_part_hd:
  assumes ct: "constituency_tree G" and ph: "(p, h) \<in> (edge_rel G)\<^sup>+"
  shows "hd (up_part G h p) = parent G h"
proof -
  from ct_trancl_less[OF ct ph] have b: "p < h" "h < length (nodes G)" by simp_all
  then have "parent G h < h" by (intro ct_parent_less[OF ct]) simp_all
  with b have "up_chain (parent G) h p = h # up_chain (parent G) (parent G h) p"
    by (subst up_chain.simps) simp
  then have "up_part G h p = up_chain (parent G) (parent G h) p" by (simp add: up_part_def)
  moreover have "hd (up_chain (parent G) v a) = v" for v a
    by (subst up_chain.simps) simp
  ultimately show ?thesis by simp
qed

lemma dependency_spines_share:
  assumes ct: "constituency_tree G" and r: "getRoot G = Inr r"
    and n: "terminal G n" "n \<noteq> r" and hr: "head_of G n \<noteq> r"
  shows "\<exists>pn ph. shortest_path G (head_of G n) n = Inr pn
           \<and> shortest_path G (head_of G n) (head_of G (head_of G n)) = Inr ph
           \<and> parent G (head_of G n) \<in> set (inner pn)
           \<and> parent G (head_of G n) \<in> set (inner ph)"
proof -
  let ?h = "head_of G n"
  from head_of_props(4)[OF ct r n] obtain p where ih: "is_head G n p ?h" by blast
  note f = is_head_facts[OF ct n(1) ih]
  from head_of_props(4)[OF ct r f(3) hr] obtain q where ihh: "is_head G ?h q (head_of G ?h)"
    by blast
  note g = is_head_facts[OF ct f(3) ihh]
  note pn = ct_head_path(1)[OF ct n(1) ih]
  note ph = ct_dep_path(1)[OF ct f(3) ihh]
  have i1: "inner (?h # up_part G ?h p @ down_part G p n @ [n]) = up_part G ?h p @ down_part G p n"
    by (rule label_facts_inner)
  have i2: "inner (?h # up_part G ?h q @ down_part G q (head_of G ?h) @ [head_of G ?h])
              = up_part G ?h q @ down_part G q (head_of G ?h)"
    by (rule label_facts_inner)
  have "parent G ?h \<in> set (up_part G ?h p)"
    using up_part_hd[OF ct f(2)] up_chain_Cons(2)[OF ct f(2)] by (metis hd_in_set)
  moreover have "parent G ?h \<in> set (up_part G ?h q)"
    using up_part_hd[OF ct g(1)] up_chain_Cons(2)[OF ct g(1)] by (metis hd_in_set)
  ultimately show ?thesis using pn ph i1 i2 by auto
qed

text \<open>
  C5.  Every label that \<open>labelDepTree\<close> attaches, given a constituency tree and its
  dependency tree, has as many depths as non-terminals, and its special index is at least 0
  and smaller than the number of non-terminals (which is therefore never 0).  The edges of
  the labelled tree are the dependency edges, one for every terminal other than the
  leftmost.
\<close>

theorem edge_label_invariant:
  assumes "constituency_tree G" and "terminals G \<noteq> []"
  shows "\<exists>r T. getRoot G = Inr r \<and> labelled_tree G = Some (Inr T)
           \<and> mset (map fst (edges T)) = mset (map (\<lambda>n. (head_of G n, n)) (other_terminals G r))
           \<and> (\<forall>h n d. ((h, n), d) \<in> set (edges T) \<longrightarrow>
                 (\<exists>c. complex_edge d = Some c
                   \<and> length (non_terminals c) = length (depths c)
                   \<and> 0 \<le> special_index c
                   \<and> special_index c < int (length (non_terminals c))))"
proof -
  from labelled_edges_keys[OF assms] obtain r T where
    rt: "getRoot G = Inr r" "labelled_tree G = Some (Inr T)"
      "mset (map fst (edges T)) = mset (map (\<lambda>n. (head_of G n, n)) (other_terminals G r))"
    and ed: "\<And>h n d. ((h, n), d) \<in> set (edges T) \<Longrightarrow>
                 \<exists>c p. complex_edge d = Some c \<and> label_facts G r T h n p c"
    by blast
  have "\<exists>c. complex_edge d = Some c
                   \<and> length (non_terminals c) = length (depths c)
                   \<and> 0 \<le> special_index c
                   \<and> special_index c < int (length (non_terminals c))"
    if e: "((h, n), d) \<in> set (edges T)" for h n d
  proof -
    from ed[OF e] obtain c p where c: "complex_edge d = Some c" and lf: "label_facts G r T h n p c"
      by blast
    let ?U = "up_part G h p" and ?D = "down_part G p n"
    from lf have u: "?U \<noteq> []" and nt: "non_terminals c = map (type_of G) (?U @ ?D)"
      and dp: "list_all2 (depth_ok G r) (?U @ ?D) (depths c)"
      and si: "h = r \<longrightarrow> special_index c = 0"
              "h \<noteq> r \<longrightarrow> special_index c = int (length ?U) - 1"
      unfolding label_facts_def by blast+
    from u obtain a as where ua: "?U = a # as" by (cases ?U) auto
    have len: "length (non_terminals c) = length ?U + length ?D" using nt by simp
    moreover have "length (depths c) = length ?U + length ?D"
      using list_all2_lengthD[OF dp] by simp
    moreover have "0 \<le> special_index c \<and> special_index c < int (length ?U + length ?D)"
    proof (cases "h = r")
      case True
      then have "special_index c = 0" using si(1) by blast
      then show ?thesis by (simp add: ua)
    next
      case False
      then have "special_index c = int (length ?U) - 1" using si(2) by blast
      then show ?thesis by (simp add: ua)
    qed
    ultimately show ?thesis using c by simp
  qed
  with rt show ?thesis by blast
qed

theorem edge_label_invariant_witness:
  "\<exists>r T. getRoot example_graph = Inr r \<and> labelled_tree example_graph = Some (Inr T)
           \<and> mset (map fst (edges T))
                = mset (map (\<lambda>n. (head_of example_graph n, n)) (other_terminals example_graph r))
           \<and> (\<forall>h n d. ((h, n), d) \<in> set (edges T) \<longrightarrow>
                 (\<exists>c. complex_edge d = Some c
                   \<and> length (non_terminals c) = length (depths c)
                   \<and> 0 \<le> special_index c
                   \<and> special_index c < int (length (non_terminals c))))"
  by (rule edge_label_invariant[OF example_graph_ct example_terminals])

text \<open>
  C6, as stated, fails.  In the example tree the edge from \<open>def\<close> (node 2) to the identifier
  (node 3) passes through \<open>function_definition\<close> (node 1); its recorded depth is 0, while
  the shortest path from node 1 to node 0 has one edge.
\<close>

theorem depths_counterexample:
  "(case example_labelled of Inl e \<Rightarrow> Inl e
    | Inr T \<Rightarrow> (case edge_complex T 2 3 of Inl e \<Rightarrow> Inl e | Inr c \<Rightarrow> Inr (depths c))) = Inr [0]
   \<and> map_sum id inner (shortest_path example_graph 2 3) = Inr [1]
   \<and> depth_to_node0 example_graph 1 = Inr 1"
  by code_simp

text \<open>
  C6, amended.  Each entry of the depths of a label is the number of nodes strictly between
  the corresponding non-terminal and the leftmost terminal (the root of the dependency
  tree, which is what \<open>labelDepTree\<close> passes to \<open>getDepth\<close>) on the path between them in the
  constituency tree.  The edges of the labelled tree are the dependency edges, one for
  every terminal other than the leftmost.
\<close>

theorem edge_label_depths:
  assumes "constituency_tree G" and "terminals G \<noteq> []"
  shows "\<exists>r T. getRoot G = Inr r \<and> labelled_tree G = Some (Inr T)
           \<and> mset (map fst (edges T)) = mset (map (\<lambda>n. (head_of G n, n)) (other_terminals G r))
           \<and> (\<forall>h n d. ((h, n), d) \<in> set (edges T) \<longrightarrow>
                 (\<exists>c pn. complex_edge d = Some c \<and> simple_path (adjacent G) pn h n
                   \<and> length (depths c) = length (inner pn)
                   \<and> (\<forall>i<length (inner pn).
                         \<exists>pm. simple_path (adjacent G) pm (inner pn ! i) r
                              \<and> depths c ! i = int (length (inner pm)))))"
proof -
  from labelled_edges_keys[OF assms] obtain r T where
    rt: "getRoot G = Inr r" "labelled_tree G = Some (Inr T)"
      "mset (map fst (edges T)) = mset (map (\<lambda>n. (head_of G n, n)) (other_terminals G r))"
    and ed: "\<And>h n d. ((h, n), d) \<in> set (edges T) \<Longrightarrow>
                 \<exists>c p. complex_edge d = Some c \<and> label_facts G r T h n p c"
    by blast
  have "\<exists>c pn. complex_edge d = Some c \<and> simple_path (adjacent G) pn h n
                   \<and> length (depths c) = length (inner pn)
                   \<and> (\<forall>i<length (inner pn).
                         \<exists>pm. simple_path (adjacent G) pm (inner pn ! i) r
                              \<and> depths c ! i = int (length (inner pm)))"
    if e: "((h, n), d) \<in> set (edges T)" for h n d
  proof -
    from ed[OF e] obtain c p where c: "complex_edge d = Some c" and lf: "label_facts G r T h n p c"
      by blast
    let ?pn = "h # up_part G h p @ down_part G p n @ [n]"
    from lf have sp: "simple_path (adjacent G) ?pn h n"
      and dp: "list_all2 (depth_ok G r) (inner ?pn) (depths c)"
      unfolding label_facts_def label_facts_inner by blast+
    have "length (depths c) = length (inner ?pn)" using list_all2_lengthD[OF dp] by simp
    moreover have "\<exists>pm. simple_path (adjacent G) pm (inner ?pn ! i) r
                              \<and> depths c ! i = int (length (inner pm))"
      if "i < length (inner ?pn)" for i
      using list_all2_nthD[OF dp that] by (simp add: depth_ok_def)
    ultimately show ?thesis using c sp by blast
  qed
  with rt show ?thesis by blast
qed

theorem edge_label_depths_witness:
  "\<exists>r T. getRoot example_graph = Inr r \<and> labelled_tree example_graph = Some (Inr T)
           \<and> mset (map fst (edges T))
                = mset (map (\<lambda>n. (head_of example_graph n, n)) (other_terminals example_graph r))
           \<and> (\<forall>h n d. ((h, n), d) \<in> set (edges T) \<longrightarrow>
                 (\<exists>c pn. complex_edge d = Some c \<and> simple_path (adjacent example_graph) pn h n
                   \<and> length (depths c) = length (inner pn)
                   \<and> (\<forall>i<length (inner pn).
                         \<exists>pm. simple_path (adjacent example_graph) pm (inner pn ! i) r
                              \<and> depths c ! i = int (length (inner pm)))))"
  by (rule edge_label_depths[OF example_graph_ct example_terminals])

subsection \<open>Growing the reconstructed tree\<close>

lemma has_edge_adjacent: "has_edge T u v = adjacent T u v"
  by (simp add: has_edge_def adjacent_def edge_rel_def)

lemma getId_upt: "node_ids T = [0..<M] \<Longrightarrow> getId T = M"
proof -
  assume a: "node_ids T = [0..<M]"
  show ?thesis
  proof (cases M)
    case 0
    with a show ?thesis by (simp add: getId_def node_ids_def)
  next
    case (Suc k)
    with a have "nodes T \<noteq> []" by (auto simp: node_ids_def)
    moreover have "Max (set (node_ids T)) = k"
      unfolding a Suc by (intro Max_eqI) auto
    ultimately show ?thesis using Suc by (simp add: getId_def)
  qed
qed

lemma tree_adj_bound: "tree_adj adj M par \<Longrightarrow> adj x y \<Longrightarrow> x < M \<and> y < M"
  unfolding tree_adj_def by (metis less_trans)

lemma attach_spec:
  assumes ids: "node_ids T = [0..<M]" and ta: "tree_adj (adjacent T) M par" and na: "na < M"
  shows "nodes (attach T na d) = nodes T @ [(M, d)]"
    and "edges (attach T na d) = edges T @ [((M, na), ())]"
    and "node_ids (attach T na d) = [0..<Suc M]"
    and "tree_adj (adjacent (attach T na d)) (Suc M) (par(M := na))"
    and "\<And>x y. adjacent T x y \<Longrightarrow> adjacent (attach T na d) x y"
    and "adjacent (attach T na d) na M"
proof -
  note gi = getId_upt[OF ids]
  have notin: "M \<notin> set (node_ids T)" by (simp add: ids)
  let ?T1 = "add_node T M d"
  have n1: "nodes ?T1 = nodes T @ [(M, d)]" "edges ?T1 = edges T"
    using notin by (simp_all add: add_node_def)
  have "\<not> adjacent ?T1 M na"
  proof
    assume "adjacent ?T1 M na"
    then have "adjacent T M na" using n1(2) by (simp add: adjacent_def edge_rel_def)
    from tree_adj_bound[OF ta this] show False by simp
  qed
  then have a: "attach T na d = ?T1\<lparr>edges := edges T @ [((M, na), ())]\<rparr>"
    by (simp add: attach_def gi add_edge_undirected_def has_edge_adjacent n1(2))
  show nn: "nodes (attach T na d) = nodes T @ [(M, d)]" by (simp add: a n1)
  show ee: "edges (attach T na d) = edges T @ [((M, na), ())]" by (simp add: a)
  show "node_ids (attach T na d) = [0..<Suc M]"
    using ids by (simp add: node_ids_def nn)
  have adj: "adjacent (attach T na d) x y \<longleftrightarrow> adjacent T x y \<or> (x = M \<and> y = na) \<or> (x = na \<and> y = M)"
    for x y by (auto simp: adjacent_def edge_rel_def ee)
  show "adjacent (attach T na d) x y" if "adjacent T x y" for x y using that adj by simp
  show "adjacent (attach T na d) na M" using adj by simp
  have par: "\<And>v. 1 \<le> v \<Longrightarrow> v < M \<Longrightarrow> par v < v" using ta by (simp add: tree_adj_def)
  have old: "\<And>x y. adjacent T x y \<longleftrightarrow> (1 \<le> y \<and> y < M \<and> x = par y) \<or> (1 \<le> x \<and> x < M \<and> y = par x)"
    using ta unfolding tree_adj_def by blast
  show "tree_adj (adjacent (attach T na d)) (Suc M) (par(M := na))"
    unfolding tree_adj_def
  proof (intro conjI allI impI)
    fix v assume "1 \<le> v \<and> v < Suc M"
    then show "(par(M := na)) v < v" using par[of v] na by (cases "v = M") auto
  next
    fix x y
    show "adjacent (attach T na d) x y
            = (1 \<le> y \<and> y < Suc M \<and> x = (par(M := na)) y \<or> 1 \<le> x \<and> x < Suc M \<and> y = (par(M := na)) x)"
      unfolding adj old using na by (cases "x = M"; cases "y = M") auto
  qed
qed

lemma struct_inv_attach:
  assumes ct: "constituency_tree G" and inv: "struct_inv G T M f A"
    and a: "a \<in> A" and x: "x \<notin> A" and e: "(a, x) \<in> edge_rel G"
  shows "struct_inv G (attach T (f a) d) (Suc M) (f(x := M)) (insert x A)"
proof -
  from inv obtain par where ids: "node_ids T = [0..<M]" and ta: "tree_adj (adjacent T) M par"
    and inj: "inj_on f A" and img: "f ` A \<subseteq> {..<M}"
    and ed: "\<And>u v. u \<in> A \<Longrightarrow> v \<in> A \<Longrightarrow> (u, v) \<in> edge_rel G \<Longrightarrow> adjacent T (f u) (f v)"
    and up: "\<And>u v. v \<in> A \<Longrightarrow> (u, v) \<in> edge_rel G \<Longrightarrow> u \<in> A"
    unfolding struct_inv_def by blast
  have fa: "f a < M" using img a by auto
  note at = attach_spec[OF ids ta fa, where d = d]
  let ?f = "f(x := M)"
  have same: "?f u = f u" if "u \<in> A" for u using that x by auto
  have "inj_on ?f (insert x A)"
  proof (rule inj_onI)
    fix u v assume uv: "u \<in> insert x A" "v \<in> insert x A" "?f u = ?f v"
    have lt: "f w < M" if "w \<in> A" for w using img that by auto
    show "u = v"
    proof (cases "u = x")
      case True
      then show ?thesis using uv lt[of v] by (cases "v = x") auto
    next
      case False
      then show ?thesis using uv lt[of u] inj by (cases "v = x") (auto dest: inj_onD)
    qed
  qed
  moreover have "?f ` insert x A \<subseteq> {..<Suc M}" using img by auto
  moreover have "adjacent (attach T (f a) d) (?f u) (?f v)"
    if uv: "u \<in> insert x A" "v \<in> insert x A" "(u, v) \<in> edge_rel G" for u v
  proof (cases "v = x")
    case True
    with ct_unique_parent[OF ct uv(3)] e have "u = a" by simp
    with True a x at(6) show ?thesis by auto
  next
    case False
    with uv(2) have vA: "v \<in> A" by simp
    from up[OF vA uv(3)] have uA: "u \<in> A" .
    from ed[OF uA vA uv(3)] at(5) same uA vA show ?thesis by simp
  qed
  moreover have "u \<in> insert x A" if "v \<in> insert x A" "(u, v) \<in> edge_rel G" for u v
  proof (cases "v = x")
    case True
    with ct_unique_parent[OF ct that(2)] e a show ?thesis by simp
  next
    case False
    with that up show ?thesis by auto
  qed
  ultimately show ?thesis
    unfolding struct_inv_def using at(3,4) by blast
qed

lemma struct_inv_chain:
  assumes ct: "constituency_tree G"
  shows "struct_inv G T M f A \<Longrightarrow> a \<in> A \<Longrightarrow> gchain G a xs \<Longrightarrow> set xs \<inter> A = {} \<Longrightarrow> distinct xs \<Longrightarrow>
         length ds = length xs \<Longrightarrow>
         struct_inv G (attach_chain T (f a) ds) (M + length xs) (extend_map f xs M) (A \<union> set xs)
         \<and> nodes (attach_chain T (f a) ds) = nodes T @ zip [M..<M + length xs] ds
         \<and> (\<forall>u\<in>A. extend_map f xs M u = f u)
         \<and> (\<forall>i<length xs. extend_map f xs M (xs ! i) = M + i)"
proof (induction xs arbitrary: T M f A a ds)
  case Nil
  then show ?case by simp
next
  case (Cons x xs)
  from Cons.prems(6) obtain d ds' where ds: "ds = d # ds'" "length ds' = length xs"
    by (cases ds) auto
  from Cons.prems have x: "x \<notin> A" "(a, x) \<in> edge_rel G" and ch: "gchain G x xs"
    and dj: "set xs \<inter> insert x A = {}" and di: "distinct xs" by auto
  let ?T1 = "attach T (f a) d" and ?f1 = "f(x := M)"
  note inv1 = struct_inv_attach[OF ct Cons.prems(1,2) x, where d = d]
  have gi: "getId T = M" using Cons.prems(1) by (simp add: struct_inv_def getId_upt)
  from Cons.prems(1) obtain par where ids: "node_ids T = [0..<M]"
    and ta: "tree_adj (adjacent T) M par" and img: "f ` A \<subseteq> {..<M}"
    unfolding struct_inv_def by blast
  have fa: "f a < M" using img Cons.prems(2) by auto
  note at = attach_spec(1)[OF ids ta fa, where d = d]
  have f1x: "?f1 x = M" by simp
  note ih0 = Cons.IH[OF inv1 insertI1 ch dj di ds(2), unfolded fun_upd_same]
  from ih0
  have ih: "struct_inv G (attach_chain ?T1 M ds') (Suc M + length xs) (extend_map ?f1 xs (Suc M))
              (insert x A \<union> set xs)"
    "nodes (attach_chain ?T1 M ds') = nodes ?T1 @ zip [Suc M..<Suc M + length xs] ds'"
    "\<forall>u\<in>insert x A. extend_map ?f1 xs (Suc M) u = ?f1 u"
    "\<forall>i<length xs. extend_map ?f1 xs (Suc M) (xs ! i) = Suc M + i"
    by blast+
  have ac: "attach_chain T (f a) ds = attach_chain ?T1 M ds'" by (simp add: ds gi)
  have up: "[M..<M + length (x # xs)] = M # [Suc M..<Suc M + length xs]"
    by (subst upt_rec) simp
  have "nodes (attach_chain T (f a) ds) = nodes ?T1 @ zip [Suc M..<Suc M + length xs] ds'"
    by (simp only: ac ih(2))
  also have "\<dots> = nodes T @ zip (M # [Suc M..<Suc M + length xs]) (d # ds')"
    by (simp only: at append_assoc append_Cons append_Nil zip_Cons_Cons)
  finally have n: "nodes (attach_chain T (f a) ds) = nodes T @ zip [M..<M + length (x # xs)] ds"
    by (simp only: up ds(1))
  have s: "struct_inv G (attach_chain T (f a) ds) (M + length (x # xs)) (extend_map f (x # xs) M)
             (A \<union> set (x # xs))"
    using ih(1) by (simp add: ac)
  have u: "\<forall>u\<in>A. extend_map f (x # xs) M u = f u"
    using ih(3) x(1) by auto
  have i: "\<forall>i<length (x # xs). extend_map f (x # xs) M ((x # xs) ! i) = M + i"
  proof (intro allI impI)
    fix i assume "i < length (x # xs)"
    then show "extend_map f (x # xs) M ((x # xs) ! i) = M + i"
      using ih(3,4) by (cases i) auto
  qed
  from s n u i show ?case by blast
qed

subsection \<open>Paths of the reconstructed tree\<close>

lemma tree_shortest_path:
  assumes ids: "node_ids T = [0..<M]" and ta: "tree_adj (adjacent T) M par"
    and sp: "simple_path (adjacent T) p u v" and uv: "u < M" "v < M"
  shows "shortest_path T u v = Inr p"
proof -
  from sp have w: "walk (adjacent T) p" "hd p = u" "last p = v" by (auto simp: simple_path_def)
  from walk_connected[OF w(1)] w(2,3) have conn: "(u, v) \<in> (und_rel T)\<^sup>*" by (simp add: und_rel_def)
  have "u \<in> set (node_ids T)" "v \<in> set (node_ids T)" using ids uv by auto
  from shortest_path_spec[OF this conn] obtain p' where
    p': "shortest_path T u v = Inr p'" "simple_path (adjacent T) p' u v" by blast
  from simple_path_unique[OF ta p'(2) sp] p'(1) show ?thesis by simp
qed

lemma walk_map:
  assumes ed: "\<And>x y. x \<in> A \<Longrightarrow> y \<in> A \<Longrightarrow> adj x y \<Longrightarrow> adj' (f x) (f y)"
  shows "walk adj p \<Longrightarrow> set p \<subseteq> A \<Longrightarrow> walk adj' (map f p)"
proof (induction p)
  case Nil
  then show ?case by simp
next
  case (Cons x p)
  show ?case
  proof (cases "p = []")
    case True
    then show ?thesis by simp
  next
    case False
    with Cons.prems have "adj x (hd p)" "walk adj p" "x \<in> A" "hd p \<in> A" "set p \<subseteq> A"
      by (auto simp: walk_Cons)
    with Cons.IH ed[of x "hd p"] False show ?thesis
      by (simp add: walk_Cons hd_map)
  qed
qed

lemma struct_inv_path:
  assumes inv: "struct_inv G T M f A" and sp: "simple_path (adjacent G) p u v" and sub: "set p \<subseteq> A"
  shows "shortest_path T (f u) (f v) = Inr (map f p)"
proof -
  from inv obtain par where ids: "node_ids T = [0..<M]" and ta: "tree_adj (adjacent T) M par"
    and inj: "inj_on f A" and img: "f ` A \<subseteq> {..<M}"
    and ed: "\<And>u v. u \<in> A \<Longrightarrow> v \<in> A \<Longrightarrow> (u, v) \<in> edge_rel G \<Longrightarrow> adjacent T (f u) (f v)"
    unfolding struct_inv_def by blast
  from sp have w: "walk (adjacent G) p" "distinct p" "hd p = u" "last p = v"
    by (auto simp: simple_path_def)
  have pne: "p \<noteq> []" using w(1) by (auto dest: walk_nonempty)
  have "adjacent T (f x) (f y)" if "x \<in> A" "y \<in> A" "adjacent G x y" for x y
    using that ed[of x y] ed[of y x] adjacent_sym[of T "f y" "f x"] by (auto simp: adjacent_def)
  from walk_map[of A "adjacent G" "adjacent T" f, OF this w(1) sub]
  have "walk (adjacent T) (map f p)" by blast
  moreover have "distinct (map f p)"
    using w(2) inj sub by (auto simp: distinct_map intro: inj_on_subset)
  moreover have "hd (map f p) = f u" "last (map f p) = f v"
    using pne w(3,4) by (simp_all add: hd_map last_map)
  ultimately have "simple_path (adjacent T) (map f p) (f u) (f v)" by (simp add: simple_path_def)
  moreover have "u \<in> A" "v \<in> A" using pne w(3,4) sub by (auto simp: subset_iff)
  then have "f u < M" "f v < M" using img by auto
  ultimately show ?thesis by (intro tree_shortest_path[OF ids ta])
qed

lemma inner_map: "inner (map f p) = map f (inner p)"
  by (simp add: inner_def map_butlast map_tl)

subsection \<open>The scaffold\<close>

lemma nearest_is_head:
  assumes ct: "constituency_tree G" and r: "getRoot G = Inr r" and n: "terminal G n" "n \<noteq> r"
  shows "is_head G n (nearest G n) (head_of G n)"
proof -
  from head_of_props(4)[OF ct r n] obtain p where p: "is_head G n p (head_of G n)" by blast
  have "nearest G n = p"
    unfolding nearest_def
  proof (rule the_equality)
    show "is_head G n p (head_of G n)" by (rule p)
  next
    fix q assume "is_head G n q (head_of G n)"
    from is_head_unique[OF ct this p] show "q = p" by simp
  qed
  with p show ?thesis by simp
qed

lemma scaffold_edges:
  assumes ct: "constituency_tree G" and sc: "python_scaffold G"
  shows "(0, 1) \<in> edge_rel G" "(1, 2) \<in> edge_rel G" "edge_rel G `` {0} = {1}"
    "getRoot G = Inr 2" "terminal G 2" "parent G 2 = 1" "parent G 1 = 0"
    "2 < length (nodes G)"
proof -
  from sc have s: "successors G 0 = [1]" "in_edges G 2 = [(1, 2)]" and r: "getRoot G = Inr 2"
    by (auto simp: python_scaffold_def)
  show e0: "edge_rel G `` {0} = {1}" using set_successors_rel[of G 0] s(1) by simp
  then show e01: "(0, 1) \<in> edge_rel G" by auto
  have "(1, 2) \<in> set (in_edges G 2)" using s(2) by simp
  then show e12: "(1, 2) \<in> edge_rel G" by (auto dest: in_edges_memD)
  show "getRoot G = Inr 2" by (rule r)
  show t2: "terminal G 2" using getRoot_spec(1)[OF ct_distinct_ids[OF ct] r] .
  show "parent G 2 = 1" using ct_parent[OF ct, of 1 2] e12 by simp
  show "parent G 1 = 0" using ct_parent[OF ct, of 0 1] e01 by simp
  show "2 < length (nodes G)" using ct_terminal[OF ct, of 2] t2 by simp
qed

lemma scaffold_nearest_root:
  assumes ct: "constituency_tree G" and sc: "python_scaffold G"
    and n: "terminal G n" and ih: "is_head G n p 2"
  shows "p = 1" and "up_part G 2 1 = [1]"
proof -
  note se = scaffold_edges[OF ct sc]
  note f = is_head_facts[OF ct n ih]
  have above0: "x = 0" if "(x, 0) \<in> (edge_rel G)\<^sup>*" for x
    using that ct_trancl_less[OF ct, of x 0] by (auto simp: rtrancl_eq_or_trancl)
  from ct_step_up(1)[OF ct f(2)] se(6) have "(p, 1) \<in> (edge_rel G)\<^sup>*" by simp
  then have "p = 1 \<or> (p, 1) \<in> (edge_rel G)\<^sup>+" by (auto simp: rtrancl_eq_or_trancl)
  then show p1: "p = 1"
  proof
    assume "(p, 1) \<in> (edge_rel G)\<^sup>+"
    from ct_step_up(1)[OF ct this] se(7) above0 have p0: "p = 0" by simp
    from tranclD[OF f(1)[unfolded p0]] obtain z where
      z: "(0, z) \<in> edge_rel G" "(z, n) \<in> (edge_rel G)\<^sup>*" by blast
    with se(3) have "z = 1" by auto
    moreover have "\<not> terminal G 1" using ct_terminal[OF ct, of 1] se(2) by auto
    ultimately have "(1, n) \<in> (edge_rel G)\<^sup>+" using z(2) n by (auto simp: rtrancl_eq_or_trancl)
    moreover have "(0, 1) \<in> (edge_rel G)\<^sup>+" using se(1) by auto
    ultimately have "cands G 1 (start_of G n) = {}" using ih p0 by (simp add: is_head_def)
    moreover have "2 \<in> cands G 1 (start_of G n)"
      using se(2,5) f(4) by (auto simp: cands_def)
    ultimately show ?thesis by simp
  qed simp
  have "(1, 2) \<in> (edge_rel G)\<^sup>+" using se(2) by auto
  from up_chain_Cons(1)[OF ct this]
  have "up_chain (parent G) 2 1 = 2 # up_part G 2 1" .
  moreover have "up_chain (parent G) 2 1 = 2 # up_chain (parent G) 1 1"
    by (subst up_chain.simps) (simp add: se(6))
  moreover have "up_chain (parent G) 1 1 = [1]" by (subst up_chain.simps) simp
  ultimately show "up_part G 2 1 = [1]" by simp
qed

lemma scaffold_path:
  assumes ct: "constituency_tree G" and sc: "python_scaffold G"
  shows "simple_path (adjacent G) [2, 1, 0] 2 0"
  using scaffold_edges(1,2)[OF ct sc] by (simp add: simple_path_def adjacent_def)

subsection \<open>Chains below an ancestor\<close>

lemma gchain_snoc: "gchain G a (xs @ [v]) \<longleftrightarrow> gchain G a xs \<and> (last (a # xs), v) \<in> edge_rel G"
  by (induction xs arbitrary: a) auto

lemma rev_up_chain_gchain:
  assumes ct: "constituency_tree G"
  shows "(a, v) \<in> (edge_rel G)\<^sup>* \<Longrightarrow>
         \<exists>ys. rev (up_chain (parent G) v a) = a # ys \<and> gchain G a ys \<and> last (a # ys) = v"
proof (induction v rule: less_induct)
  case (less v)
  show ?case
  proof (cases "v = a")
    case True
    have "up_chain (parent G) a a = [a]" by (subst up_chain.simps) simp
    with True show ?thesis by simp
  next
    case False
    with less.prems have av: "(a, v) \<in> (edge_rel G)\<^sup>+" by (auto simp: rtrancl_eq_or_trancl)
    note su = ct_step_up[OF ct av]
    let ?u = "parent G v"
    have uv: "?u < v" using ct_edge(1)[OF ct su(2)] .
    have "a < v" using ct_trancl_less[OF ct av] by simp
    then have uc: "up_chain (parent G) v a = v # up_chain (parent G) ?u a"
      using uv by (subst up_chain.simps) simp
    from less.IH[OF uv su(1)] obtain ys where
      ys: "rev (up_chain (parent G) ?u a) = a # ys" "gchain G a ys" "last (a # ys) = ?u" by blast
    have "rev (up_chain (parent G) v a) = a # (ys @ [v])" by (simp add: uc ys(1))
    moreover have "gchain G a (ys @ [v])" using ys(2,3) su(2) by (simp add: gchain_snoc)
    ultimately show ?thesis by (intro exI[of _ "ys @ [v]"]) simp
  qed
qed

lemma gchain_down:
  assumes ct: "constituency_tree G" and pn: "(p, n) \<in> (edge_rel G)\<^sup>+"
  shows "gchain G p (down_part G p n @ [n])"
proof -
  from rev_up_chain_gchain[OF ct trancl_into_rtrancl[OF pn]] obtain ys where
    "rev (up_chain (parent G) n p) = p # ys" "gchain G p ys" by blast
  with down_part_props(1)[OF ct pn] show ?thesis by simp
qed

subsection \<open>Ancestor sets\<close>

lemma anc_up: "y \<in> anc G S \<Longrightarrow> (x, y) \<in> (edge_rel G)\<^sup>* \<Longrightarrow> x \<in> anc G S"
  by (auto simp: anc_def intro: rtrancl_trans)

lemma anc_self: "t \<in> S \<Longrightarrow> t \<in> anc G S"
  by (auto simp: anc_def)

lemma anc_insert:
  assumes ct: "constituency_tree G" and pn: "(p, n) \<in> (edge_rel G)\<^sup>+" and p: "p \<in> anc G S"
  shows "anc G (insert n S) = anc G S \<union> set (down_part G p n @ [n])"
proof -
  have "{x. (x, n) \<in> (edge_rel G)\<^sup>*} \<subseteq> anc G S \<union> set (down_part G p n @ [n])"
  proof
    fix x assume "x \<in> {x. (x, n) \<in> (edge_rel G)\<^sup>*}"
    then have "x = n \<or> (x, n) \<in> (edge_rel G)\<^sup>+" by (auto simp: rtrancl_eq_or_trancl)
    then show "x \<in> anc G S \<union> set (down_part G p n @ [n])"
    proof
      assume xn: "(x, n) \<in> (edge_rel G)\<^sup>+"
      from ct_anc_comparable[OF ct xn pn]
      consider "x = p" | "(x, p) \<in> (edge_rel G)\<^sup>+" | "(p, x) \<in> (edge_rel G)\<^sup>+" by blast
      then show ?thesis
      proof cases
        case 1
        with p show ?thesis by simp
      next
        case 2
        with anc_up[OF p] show ?thesis by (simp add: trancl_into_rtrancl)
      next
        case 3
        with xn down_part_props(2)[OF ct pn] show ?thesis by simp
      qed
    qed simp
  qed
  moreover have "set (down_part G p n @ [n]) \<subseteq> {x. (x, n) \<in> (edge_rel G)\<^sup>*}"
    using down_part_props(2)[OF ct pn] by (auto simp: trancl_into_rtrancl)
  moreover have "anc G (insert n S) = anc G S \<union> {x. (x, n) \<in> (edge_rel G)\<^sup>*}"
    by (auto simp: anc_def)
  ultimately show ?thesis by blast
qed

subsection \<open>Facts about the labelled dependency tree\<close>

lemma labelled_tree_full:
  assumes ct: "constituency_tree G" and ne: "terminals G \<noteq> []"
  shows "\<exists>r T. getRoot G = Inr r \<and> labelled_tree G = Some (Inr T)
           \<and> nodes T = filter (\<lambda>(n, a). is_terminal a) (nodes G)
           \<and> (\<forall>n. terminal G n \<and> n \<noteq> r \<longrightarrow>
                 getHeadDepTree T n = Inr (head_of G n)
                 \<and> (\<exists>c p. edge_complex T (head_of G n) n = Inr c
                        \<and> label_facts G r T (head_of G n) n p c))"
proof -
  from labelled_edges[OF ct ne] obtain r T where
    r: "getRoot G = Inr r" and lt: "labelled_tree G = Some (Inr T)"
    and ed: "\<And>h n d. ((h, n), d) \<in> set (edges T) \<Longrightarrow>
                 \<exists>c p. complex_edge d = Some c \<and> label_facts G r T h n p c"
    by blast
  note es = enrichAstWithDeps_spec[OF ct r]
  let ?ns = "other_terminals G r"
  let ?ds = "dep_list G ?ns"
  let ?T0 = "getDependencyTree (with_deps G ?ds)"
  from labelDepTree_spec[OF ct es(1)] obtain r' T' where
    T': "labelDepTree G ?T0 = Inr T'" "nodes T' = nodes ?T0"
        "map fst (edges T') = map fst (edges ?T0)" by blast
  from lt es(1) T'(1) have TT: "T' = T" by (simp add: labelled_tree_def)
  note T = T'[unfolded TT]
  have nodesT: "nodes T = filter (\<lambda>(n, a). is_terminal a) (nodes G)"
    using T(2) getDependencyTree_with_deps(1)[OF ct es(2)] by simp
  note ot = other_terminals_props[OF ct_distinct_ids[OF ct], of r]
  have K: "set (map fst (edges T)) = set ?ds"
    unfolding T(3) using dep_tree_edges_mset[OF ct es(2)] by (metis set_mset_mset)
  have "getHeadDepTree T n = Inr (head_of G n)
          \<and> (\<exists>c p. edge_complex T (head_of G n) n = Inr c \<and> label_facts G r T (head_of G n) n p c)"
    if n: "terminal G n" "n \<noteq> r" for n
  proof -
    have "getHeadDepTree ?T0 n = Inr (head_of G n)"
      by (rule getHeadDepTree_spec(2)[OF ct r n])
    then have gh: "getHeadDepTree T n = Inr (head_of G n)"
      using getHeadDepTree_keys[OF T(3), of n] by simp
    have "(head_of G n, n) \<in> set ?ds" using n ot(2) by (auto simp: dep_list_def)
    with K have "(head_of G n, n) \<in> fst ` set (edges T)" by simp
    then obtain d where d: "map_of (edges T) (head_of G n, n) = Some d"
      using map_of_eq_None_iff[of "edges T" "(head_of G n, n)"] by (cases "map_of (edges T) (head_of G n, n)") auto
    from map_of_SomeD[OF d] ed obtain c p where
      c: "complex_edge d = Some c" "label_facts G r T (head_of G n) n p c" by blast
    have "edge_complex T (head_of G n) n = Inr c" by (simp add: edge_complex_def d c(1))
    with gh c(2) show ?thesis by blast
  qed
  with r lt nodesT show ?thesis by blast
qed

lemma up_part_compose:
  assumes ct: "constituency_tree G"
    and qp: "(q, p) \<in> (edge_rel G)\<^sup>+" and ph: "(p, h) \<in> (edge_rel G)\<^sup>+"
  shows "up_part G h q = up_part G h p @ up_part G p q"
proof -
  have "up_chain (parent G) h q = up_chain (parent G) h p @ tl (up_chain (parent G) p q)"
    using up_chain_compose[OF ct, of q p h] qp ph by (simp add: trancl_into_rtrancl)
  moreover have "up_chain (parent G) h p \<noteq> []"
    using up_chain_props[OF ct trancl_into_rtrancl[OF ph]] by (auto dest: walk_nonempty)
  ultimately show ?thesis by (simp add: up_part_def)
qed

lemma head_path_prefix:
  assumes ct: "constituency_tree G" and n: "terminal G n"
    and ih: "is_head G n p h" and ihh: "is_head G h q hh"
  shows "simple_path (adjacent G) (h # (up_part G h p @ up_part G p q @ down_part G q hh) @ [hh]) h hh"
    and "set (h # (up_part G h p @ up_part G p q @ down_part G q hh) @ [hh])
           \<subseteq> {x. (x, h) \<in> (edge_rel G)\<^sup>* \<or> (x, hh) \<in> (edge_rel G)\<^sup>*}"
proof -
  note f = is_head_facts[OF ct n ih]
  note g = is_head_facts[OF ct f(3) ihh]
  note qp = head_of_head_above[OF ct n ih ihh]
  note uc = up_part_compose[OF ct qp f(2)]
  from ct_dep_path(2)[OF ct f(3) ihh]
  show "simple_path (adjacent G) (h # (up_part G h p @ up_part G p q @ down_part G q hh) @ [hh]) h hh"
    by (simp add: uc)
  have "set (up_part G h q) \<subseteq> {x. (x, h) \<in> (edge_rel G)\<^sup>*}"
    using up_chain_Cons(5)[OF ct g(1)] by (auto simp: trancl_into_rtrancl)
  moreover have "set (down_part G q hh) \<subseteq> {x. (x, hh) \<in> (edge_rel G)\<^sup>*}"
    using down_part_props(2)[OF ct g(2)] by (auto simp: trancl_into_rtrancl)
  ultimately have "set (h # (up_part G h q @ down_part G q hh) @ [hh])
           \<subseteq> {x. (x, h) \<in> (edge_rel G)\<^sup>* \<or> (x, hh) \<in> (edge_rel G)\<^sup>*}"
    by auto
  then show "set (h # (up_part G h p @ up_part G p q @ down_part G q hh) @ [hh])
           \<subseteq> {x. (x, h) \<in> (edge_rel G)\<^sup>* \<or> (x, hh) \<in> (edge_rel G)\<^sup>*}"
    by (simp only: uc append_assoc)
qed

subsection \<open>Correspondence of terminals\<close>

lemma get_correspondence_spec:
  assumes ai: "attr_inv G T_ast f S" and t: "t \<in> S"
    and at: "attr_of T t = Inr a" "node_attrs G t = Some a"
    and uniq: "\<And>u. u \<in> S \<Longrightarrow> node_attrs G u = Some a \<Longrightarrow> u = t"
  shows "get_correspondence T_ast T t = Inr (Some (f t))"
proof -
  from ai t at(2) have mem: "(f t, Full a) \<in> set (nodes T_ast)" by (auto simp: attr_inv_def)
  then have ne: "nodes T_ast \<noteq> []" by auto
  have "find (\<lambda>(m, d). d = Full a) (nodes T_ast) \<noteq> None"
    using mem by (auto simp: find_None_iff)
  then obtain m d where md: "find (\<lambda>(m, d). d = Full a) (nodes T_ast) = Some (m, d)" by auto
  then have "(m, d) \<in> set (nodes T_ast)" "d = Full a"
    by (auto simp: find_Some_iff dest: nth_mem)
  with ai have "\<exists>u\<in>S. m = f u \<and> node_attrs G u = Some a"
    unfolding attr_inv_def by blast
  then obtain u where "u \<in> S" "m = f u" "node_attrs G u = Some a" by blast
  with uniq have "m = f t" by auto
  with md ne at(1) show ?thesis by (simp add: get_correspondence_def)
qed

subsection \<open>Appending a chain\<close>

lemma append_chain_attach:
  "(case append_chain T na tys of (T1, na1) \<Rightarrow> attach T1 na1 d)
     = attach_chain T na (map (\<lambda>ty. Partial ty False) tys @ [d])"
proof (induction tys arbitrary: T na)
  case Nil
  then show ?case by simp
next
  case (Cons ty tys)
  have "append_chain T na (ty # tys) = append_chain (attach T na (Partial ty False)) (getId T) tys"
    by (simp add: attach_def Let_def)
  with Cons.IH[of "attach T na (Partial ty False)" "getId T"] show ?case by simp
qed

lemma py_nth_nat: "i < length xs \<Longrightarrow> py_nth xs (int i) = Inr (xs ! i)"
  by (simp add: py_nth_def)

lemma py_slice_from_nat: "py_slice_from xs (int k) = drop k xs"
  by (simp add: py_slice_from_def)

subsection \<open>One step of the reconstruction\<close>

lemma tree_facts_attr:
  assumes tf: "tree_facts G T" and t: "terminal G t"
  shows "\<exists>a. node_attrs G t = Some a \<and> attr_of T t = Inr a"
proof -
  from t obtain a where a: "node_attrs G t = Some a" "is_terminal a"
    by (auto simp: terminal_def split: option.splits)
  from tf have "nodes T = filter (\<lambda>(n, a). is_terminal a) (nodes G)" by (simp add: tree_facts_def)
  moreover have "map_of (filter (\<lambda>(n, a). is_terminal a) (nodes G)) t = Some a"
    using a by (intro map_of_filter_in) (simp_all add: node_attrs_def)
  ultimately have "node_attrs T t = Some a" by (simp add: node_attrs_def)
  with a(1) show ?thesis by (simp add: attr_of_def)
qed

lemma node_attrs_start_inj:
  assumes ct: "constituency_tree G" and "terminal G t" "terminal G u"
    and "node_attrs G t = Some a" "node_attrs G u = Some a"
  shows "u = t"
  using ct_start_inj[OF ct assms(3,2)] assms(4,5) by (simp add: start_of_def)

lemma insertion_point:
  assumes ct: "constituency_tree G" and sc: "python_scaffold G" and tf: "tree_facts G T"
    and inv: "struct_inv G T_ast M f (anc G S)" and fx: "f 0 = 0" "f 1 = 1" "f 2 = 2"
    and ai: "attr_inv G T_ast f S"
    and n: "terminal G n" "n \<noteq> 2"
    and Sn: "\<And>t. t \<in> S \<longleftrightarrow> terminal G t \<and> start_of G t < start_of G n"
    and ih: "is_head G n p h"
    and lf: "label_facts G 2 T h n p c"
  shows "\<exists>pth. insertion_path T_ast T 2 h = Inr pth
           \<and> get_node_to_append c pth = Inr (f p, map (type_of G) (down_part G p n))"
proof -
  note se = scaffold_edges[OF ct sc]
  note f = is_head_facts[OF ct n(1) ih]
  let ?U = "up_part G h p" and ?D = "down_part G p n"
  from lf have nt: "non_terminals c = map (type_of G) (?U @ ?D)"
    and si0: "h = 2 \<longrightarrow> special_index c = 0"
    and si1: "h \<noteq> 2 \<longrightarrow> special_index c = int (length ?U) - 1
                \<and> getHeadDepTree T h = Inr (head_of G h)"
    unfolding label_facts_def by blast+
  note U = up_chain_Cons[OF ct f(2)]
  have hS: "h \<in> S" using Sn f(3,4) by simp
  have S2: "2 \<in> S" using Sn se(5) ct_root_less[OF ct se(4) n] by simp
  show ?thesis
  proof (cases "h = 2")
    case True
    from ih True have ih2: "is_head G n p 2" by simp
    note sn = scaffold_nearest_root[OF ct sc n(1) ih2]
    have U1: "?U = [1]" using sn True by simp
    have sub: "set [2, 1, 0] \<subseteq> anc G S"
      using anc_up[OF anc_self[OF S2], of 1 G] anc_up[OF anc_self[OF S2], of 0 G] anc_self[OF S2, of G]
        se(1,2) by (auto intro: rtrancl_trans)
    from struct_inv_path[OF inv scaffold_path[OF ct sc] sub]
    have "shortest_path T_ast 2 0 = Inr [2, 1, 0]" using fx by simp
    then have ip: "insertion_path T_ast T 2 h = Inr [1]"
      by (simp add: insertion_path_def if_P[OF True] inner_def)
    have "special_index c = 0" using si0 True by blast
    then have "get_node_to_append c [1::nat] = Inr (1, map (type_of G) ?D)"
      by (simp add: get_node_to_append_def py_nth_def py_slice_from_def nt U1)
    with ip sn(1) fx(2) show ?thesis by simp
  next
    case False
    let ?hh = "head_of G h" and ?q = "nearest G h"
    note ihh = nearest_is_head[OF ct se(4) f(3) False]
    note g = is_head_facts[OF ct f(3) ihh]
    have hhS: "?hh \<in> S" using Sn g(3,4) f(4) by simp
    have corr: "get_correspondence T_ast T t = Inr (Some (f t))" if t: "t \<in> S" for t
    proof -
      have tt: "terminal G t" using Sn t by simp
      from tree_facts_attr[OF tf tt] obtain a where
        a: "node_attrs G t = Some a" "attr_of T t = Inr a" by blast
      have "u = t" if "u \<in> S" "node_attrs G u = Some a" for u
        using node_attrs_start_inj[OF ct tt _ a(1) that(2)] Sn that(1) by simp
      from get_correspondence_spec[OF ai t a(2,1) this] show ?thesis by simp
    qed
    let ?W = "up_part G p ?q" and ?E = "down_part G ?q ?hh"
    note hp = head_path_prefix[OF ct n(1) ih ihh]
    have sub: "set (h # (?U @ ?W @ ?E) @ [?hh]) \<subseteq> anc G S"
    proof
      fix x assume "x \<in> set (h # (?U @ ?W @ ?E) @ [?hh])"
      with hp(2) have "(x, h) \<in> (edge_rel G)\<^sup>* \<or> (x, ?hh) \<in> (edge_rel G)\<^sup>*" by blast
      then show "x \<in> anc G S"
        using anc_up[OF anc_self[OF hS]] anc_up[OF anc_self[OF hhS]] by blast
    qed
    from struct_inv_path[OF inv hp(1) sub]
    have sp: "shortest_path T_ast (f h) (f ?hh) = Inr (map f (h # (?U @ ?W @ ?E) @ [?hh]))" .
    have inn: "inner (map f (h # (?U @ ?W @ ?E) @ [?hh])) = map f (?U @ ?W @ ?E)"
      unfolding inner_map inner_path ..
    have gh: "getHeadDepTree T h = Inr ?hh" using si1 False by blast
    have ip: "insertion_path T_ast T 2 h = Inr (map f (?U @ ?W @ ?E))"
      by (simp only: insertion_path_def if_not_P[OF False] gh sum.case corr[OF hS] corr[OF hhS]
          shortest_path_opt_def prod.case option.case sp inn)
    obtain k where k: "length ?U = Suc k" using U(2) by (cases ?U) auto
    have si: "special_index c = int k" using si1 False k by simp
    have "(?U @ ?W @ ?E) ! k = last ?U"
      using k U(2) by (simp add: nth_append last_conv_nth)
    moreover have "k < length (?U @ ?W @ ?E)" using k by simp
    ultimately have el: "map f (?U @ ?W @ ?E) ! k = f p" using U(3) by (simp only: nth_map)
    have pn: "py_nth (map f (?U @ ?W @ ?E)) (int k) = Inr (f p)"
      unfolding el[symmetric] by (rule py_nth_nat) (simp add: k)
    have ps: "py_slice_from (non_terminals c) (int k + 1) = map (type_of G) ?D"
    proof -
      have "int k + 1 = int (Suc k)" by simp
      then show ?thesis
        unfolding nt by (simp only: py_slice_from_nat) (simp add: k[symmetric])
    qed
    have "get_node_to_append c (map f (?U @ ?W @ ?E)) = Inr (f p, map (type_of G) ?D)"
      by (simp only: get_node_to_append_def si pn ps sum.case)
    with ip show ?thesis by blast
  qed
qed

lemma reconstruct_step_inv:
  assumes ct: "constituency_tree G" and sc: "python_scaffold G" and tf: "tree_facts G T"
    and inv: "struct_inv G T_ast M f (anc G S)" and fx: "f 0 = 0" "f 1 = 1" "f 2 = 2"
    and ai: "attr_inv G T_ast f S"
    and n: "terminal G n" "n \<noteq> 2"
    and Sn: "\<And>t. t \<in> S \<longleftrightarrow> terminal G t \<and> start_of G t < start_of G n"
  shows "\<exists>T' M' f'. reconstruct_step T 2 T_ast n = Inr T'
           \<and> struct_inv G T' M' f' (anc G (insert n S))
           \<and> f' 0 = 0 \<and> f' 1 = 1 \<and> f' 2 = 2
           \<and> attr_inv G T' f' (insert n S)
           \<and> map snd (nodes T') = map snd (nodes T_ast)
                @ map (\<lambda>x. Partial (type_of G x) False) (down_part G (nearest G n) n)
                @ [Full (the (node_attrs G n))]
           \<and> anc G (insert n S) = anc G S \<union> set (down_part G (nearest G n) n @ [n])
           \<and> set (down_part G (nearest G n) n @ [n]) \<inter> anc G S = {}
           \<and> distinct (down_part G (nearest G n) n @ [n])"
proof -
  note se = scaffold_edges[OF ct sc]
  define h where "h = head_of G n"
  define p where "p = nearest G n"
  define D where "D = down_part G p n"
  have ih: "is_head G n p h"
    unfolding h_def p_def by (rule nearest_is_head[OF ct se(4) n])
  note f = is_head_facts[OF ct n(1) ih]
  from tf n have gh: "getHeadDepTree T n = Inr h"
    and "\<exists>c p'. edge_complex T h n = Inr c \<and> label_facts G 2 T h n p' c"
    unfolding tree_facts_def h_def by blast+
  then obtain c p' where ec: "edge_complex T h n = Inr c" and lf': "label_facts G 2 T h n p' c"
    by blast
  from lf' have "is_head G n p' h" unfolding label_facts_def by blast
  from is_head_unique[OF ct this ih] have "p' = p" by simp
  with lf' have lf: "label_facts G 2 T h n p c" by simp
  from insertion_point[OF ct sc tf inv fx ai n Sn ih lf] obtain pth where
    ip: "insertion_path T_ast T 2 h = Inr pth"
    and gna: "get_node_to_append c pth = Inr (f p, map (type_of G) D)"
    unfolding D_def by blast
  from tree_facts_attr[OF tf n(1)] obtain a where
    a: "node_attrs G n = Some a" "attr_of T n = Inr a" by blast
  define ds where "ds = map (\<lambda>x. Partial (type_of G x) False) D @ [Full a]"
  define dsP where "dsP = map (\<lambda>x. Partial (type_of G x) False) D"
  have ds: "ds = dsP @ [Full a]" by (simp add: ds_def dsP_def)
  have "reconstruct_step T 2 T_ast n
          = Inr (case append_chain T_ast (f p) (map (type_of G) D) of
                   (T1, na1) \<Rightarrow> attach T1 na1 (Full a))"
    by (simp add: reconstruct_step_def gh ip ec gna a(2) attach_def Let_def split: prod.splits)
  then have rs: "reconstruct_step T 2 T_ast n = Inr (attach_chain T_ast (f p) ds)"
    unfolding append_chain_attach by (simp add: ds_def comp_def)
  have hS: "h \<in> S" using Sn f(3,4) by simp
  have S2: "2 \<in> S" using Sn se(5) ct_root_less[OF ct se(4) n] by simp
  have pA: "p \<in> anc G S"
    by (rule anc_up[OF anc_self[OF hS]]) (rule trancl_into_rtrancl[OF f(2)])
  have gc: "gchain G p (D @ [n])" unfolding D_def by (rule gchain_down[OF ct f(1)])
  note dp = down_part_props[OF ct f(1)]
  have nD: "n \<notin> set D"
    unfolding D_def dp(2) using ct_trancl_less[OF ct, of n n] by auto
  have di: "distinct (D @ [n])" using dp(3) nD by (simp add: D_def)
  have nA: "n \<notin> anc G S"
  proof
    assume "n \<in> anc G S"
    then obtain t where t: "t \<in> S" "(n, t) \<in> (edge_rel G)\<^sup>*" by (auto simp: anc_def)
    from ct_terminal_reach[OF ct n(1) t(2)] t(1) Sn show False by simp
  qed
  have DA: "x \<notin> anc G S" if "x \<in> set D" for x
  proof
    assume "x \<in> anc G S"
    then obtain t where t: "t \<in> S" "(x, t) \<in> (edge_rel G)\<^sup>*" by (auto simp: anc_def)
    from that have x: "(p, x) \<in> (edge_rel G)\<^sup>+" "(x, n) \<in> (edge_rel G)\<^sup>+"
      unfolding D_def dp(2) by auto
    with ih have "cands G x (start_of G n) = {}" unfolding is_head_def by blast
    moreover have "t \<in> cands G x (start_of G n)" using t Sn by (simp add: cands_def)
    ultimately show False by simp
  qed
  have dj: "set (D @ [n]) \<inter> anc G S = {}" using nA DA by auto
  have len: "length ds = length (D @ [n])" by (simp add: ds_def)
  define T' where "T' = attach_chain T_ast (f p) ds"
  define M' where "M' = M + length (D @ [n])"
  define f' where "f' = extend_map f (D @ [n]) M"
  from struct_inv_chain[OF ct inv pA gc dj di len]
  have si: "struct_inv G T' M' f' (anc G S \<union> set (D @ [n]))"
    and nd: "nodes T' = nodes T_ast @ zip [M..<M + length (D @ [n])] ds"
    and ag: "\<And>u. u \<in> anc G S \<Longrightarrow> f' u = f u"
    and nw: "\<And>i. i < length (D @ [n]) \<Longrightarrow> f' ((D @ [n]) ! i) = M + i"
    unfolding T'_def M'_def f'_def by blast+
  have ai': "anc G (insert n S) = anc G S \<union> set (D @ [n])"
    unfolding D_def by (rule anc_insert[OF ct f(1) pA])
  have A2: "2 \<in> anc G S" by (rule anc_self[OF S2])
  have A1: "1 \<in> anc G S" using anc_up[OF A2, of 1] se(2) by auto
  have A0: "0 \<in> anc G S" using anc_up[OF A1, of 0] se(1) by auto
  have fx': "f' 0 = 0" "f' 1 = 1" "f' 2 = 2"
    using ag[OF A0] ag[OF A1] ag[OF A2] fx by simp_all
  have fn: "f' n = M + length D" using nw[of "length D"] by simp
  have zp: "zip [M..<M + length (D @ [n])] ds
              = zip [M..<M + length D] dsP @ [(M + length D, Full a)]"
    by (simp add: ds dsP_def)
  have nd': "nodes T' = nodes T_ast @ zip [M..<M + length D] dsP @ [(M + length D, Full a)]"
    unfolding nd zp ..
  have noF: "(m, Full b) \<notin> set (zip [M..<M + length D] dsP)" for m b
  proof
    assume "(m, Full b) \<in> set (zip [M..<M + length D] dsP)"
    then have "Full b \<in> set dsP" by (rule set_zip_rightD)
    then show False by (auto simp: dsP_def)
  qed
  have at: "attr_inv G T' f' (insert n S)"
    unfolding attr_inv_def
  proof (intro conjI ballI allI impI)
    fix t assume "t \<in> insert n S"
    then consider "t = n" | "t \<in> S" by blast
    then show "\<exists>b. node_attrs G t = Some b \<and> (f' t, Full b) \<in> set (nodes T')"
    proof cases
      case 1
      then show ?thesis using a(1) fn by (simp add: nd')
    next
      case 2
      with ai obtain b where "node_attrs G t = Some b" "(f t, Full b) \<in> set (nodes T_ast)"
        unfolding attr_inv_def by blast
      with ag[OF anc_self[OF 2]] show ?thesis by (simp add: nd')
    qed
  next
    fix m b assume "(m, Full b) \<in> set (nodes T')"
    then consider "(m, Full b) \<in> set (nodes T_ast)" | "m = M + length D" "b = a"
      using noF by (auto simp: nd')
    then show "\<exists>t\<in>insert n S. m = f' t \<and> node_attrs G t = Some b"
    proof cases
      case 1
      with ai obtain t where t: "t \<in> S" "m = f t" "node_attrs G t = Some b"
        unfolding attr_inv_def by blast
      with ag[OF anc_self[OF t(1)]] show ?thesis by auto
    next
      case 2
      then show ?thesis using fn a(1) by simp
    qed
  qed
  have ms: "map snd (nodes T') = map snd (nodes T_ast) @ ds"
    unfolding nd using len by (simp add: map_snd_zip)
  have "map snd (nodes T') = map snd (nodes T_ast)
          @ map (\<lambda>x. Partial (type_of G x) False) (down_part G (nearest G n) n)
          @ [Full (the (node_attrs G n))]"
    unfolding ms ds_def D_def p_def by (simp add: a(1))
  moreover note rs[folded T'_def] si[folded ai'] fx' at
    ai'[unfolded D_def p_def] dj[unfolded D_def p_def] di[unfolded D_def p_def]
  ultimately show ?thesis by blast
qed

subsection \<open>Multisets of node contents\<close>

lemma mset_concat_map_cong:
  assumes "mset xs = mset ys"
  shows "mset (concat (map g xs)) = mset (concat (map g ys))"
proof -
  have "mset (concat (map g zs)) = (\<Sum>x\<in>#mset zs. mset (g x))" for zs
    by (induction zs) auto
  with assms show ?thesis by simp
qed

lemma filter_key_single:
  "distinct (map f zs) \<Longrightarrow> k \<in> set zs \<Longrightarrow> filter (\<lambda>x. f k = f x) zs = [k]"
proof (induction zs)
  case Nil
  then show ?case by simp
next
  case (Cons z zs)
  from Cons.prems(1) have nz: "f z \<notin> f ` set zs" and d: "distinct (map f zs)" by auto
  show ?case
  proof (cases "k = z")
    case True
    have "filter (\<lambda>x. f z = f x) zs = []" using nz by (auto simp: filter_empty_conv)
    with True show ?thesis by simp
  next
    case False
    with Cons.prems(2) have k: "k \<in> set zs" by simp
    then have "f k \<noteq> f z" using nz by (metis imageI)
    with Cons.IH[OF d k] show ?thesis by simp
  qed
qed

lemma sort_key_mset_cong:
  assumes m: "mset xs = mset ys" and d: "distinct (map f ys)"
  shows "sort_key f xs = sort_key f ys"
proof (rule properties_for_sort_key)
  show "mset (sort_key f ys) = mset xs" using m by simp
  show "sorted (map f (sort_key f ys))" by simp
  have "mset (map f xs) = mset (map f ys)" using m by simp
  from mset_eq_imp_distinct_iff[OF this] d have dx: "distinct (map f xs)" by simp
  have "mset (map f (sort_key f ys)) = mset (map f ys)" by simp
  from mset_eq_imp_distinct_iff[OF this] d have ds: "distinct (map f (sort_key f ys))" by blast
  fix k assume k: "k \<in> set (sort_key f ys)"
  then have "k \<in> set xs" using mset_eq_setD[OF m] by simp
  from filter_key_single[OF ds k] filter_key_single[OF dx this]
  show "filter (\<lambda>x. f k = f x) (sort_key f ys) = filter (\<lambda>x. f k = f x) xs" by simp
qed

lemma dict_terminal_embed:
  "concat (map dict_terminal (map embed as)) = filter is_terminal as"
  by (induction as) (auto simp: embed_def)

lemma dict_nonterminal_embed:
  "concat (map dict_nonterminal (map embed as)) = map type (filter (\<lambda>a. \<not> is_terminal a) as)"
  by (induction as) (auto simp: embed_def)

lemma content_terminal:
  assumes "terminal G x"
  shows "content G x = Full (the (node_attrs G x))"
  using assms by (auto simp: content_def embed_def terminal_def split: option.splits)

lemma content_nonterminal:
  assumes ct: "constituency_tree G" and x: "x < length (nodes G)" "\<not> terminal G x"
  shows "content G x = Partial (type_of G x) False"
proof -
  from ct_node_attrs[OF ct x(1)] obtain a where "node_attrs G x = Some a" by blast
  with x(2) show ?thesis by (simp add: content_def embed_def terminal_def type_of_def)
qed

lemma nodes_content:
  assumes ct: "constituency_tree G"
  shows "map embed (map snd (nodes G)) = map (content G) [0..<length (nodes G)]"
proof -
  have "map embed (map snd (nodes G)) = map (content G) (map fst (nodes G))"
  proof -
    have "embed (snd na) = content G (fst na)" if "na \<in> set (nodes G)" for na
      using node_attrs_Some[OF ct_distinct_ids[OF ct], of "fst na" "snd na"] that
      by (simp add: content_def)
    then show ?thesis by simp
  qed
  also have "map fst (nodes G) = [0..<length (nodes G)]"
    using ct by (simp add: constituency_tree_def node_ids_def)
  finally show ?thesis .
qed

subsection \<open>Ancestors of the terminals\<close>

lemma anc_bound:
  assumes ct: "constituency_tree G" and S: "\<And>t. t \<in> S \<Longrightarrow> terminal G t"
  shows "anc G S \<subseteq> {..<length (nodes G)}"
proof
  fix x assume "x \<in> anc G S"
  then obtain t where t: "t \<in> S" "(x, t) \<in> (edge_rel G)\<^sup>*" by (auto simp: anc_def)
  from S[OF t(1)] have "t < length (nodes G)" using ct_terminal[OF ct] by simp
  moreover from t(2) have "x = t \<or> (x, t) \<in> (edge_rel G)\<^sup>+" by (auto simp: rtrancl_eq_or_trancl)
  ultimately show "x \<in> {..<length (nodes G)}" using ct_trancl_less[OF ct, of x t] by auto
qed

lemma terminal_below:
  assumes ct: "constituency_tree G"
  shows "x < length (nodes G) \<Longrightarrow> x \<noteq> 0 \<Longrightarrow> \<exists>t. terminal G t \<and> (x, t) \<in> (edge_rel G)\<^sup>*"
proof (induction "length (nodes G) - x" arbitrary: x rule: less_induct)
  case less
  show ?case
  proof (cases "edge_rel G `` {x} = {}")
    case True
    with less.prems ct_terminal[OF ct, of x] have "terminal G x" by simp
    then show ?thesis by blast
  next
    case False
    then obtain y where y: "(x, y) \<in> edge_rel G" by blast
    note e = ct_edge[OF ct y]
    have "length (nodes G) - y < length (nodes G) - x" using e by simp
    from less.hyps[OF this e(2)] e(1) obtain t where
      "terminal G t" "(y, t) \<in> (edge_rel G)\<^sup>*" by auto
    with y show ?thesis by (blast intro: converse_rtrancl_into_rtrancl)
  qed
qed

lemma anc_all:
  assumes ct: "constituency_tree G" and sc: "python_scaffold G"
  shows "anc G {t. terminal G t} = {..<length (nodes G)}"
proof
  show "anc G {t. terminal G t} \<subseteq> {..<length (nodes G)}"
    by (rule anc_bound[OF ct]) simp
next
  note se = scaffold_edges[OF ct sc]
  show "{..<length (nodes G)} \<subseteq> anc G {t. terminal G t}"
  proof
    fix x assume x: "x \<in> {..<length (nodes G)}"
    show "x \<in> anc G {t. terminal G t}"
    proof (cases "x = 0")
      case True
      have "(0, 2) \<in> (edge_rel G)\<^sup>*" using se(1,2) by (auto intro: rtrancl_trans)
      with se(5) True show ?thesis by (auto simp: anc_def)
    next
      case False
      with terminal_below[OF ct, of x] x show ?thesis by (auto simp: anc_def)
    qed
  qed
qed

lemma anc_root:
  assumes ct: "constituency_tree G" and sc: "python_scaffold G"
  shows "anc G {2} = {0, 1, 2}"
proof -
  note se = scaffold_edges[OF ct sc]
  have "(x, 0) \<in> (edge_rel G)\<^sup>* \<longleftrightarrow> x = 0" for x
    using ct_trancl_less[OF ct, of x 0] by (auto simp: rtrancl_eq_or_trancl)
  with ct_below_iff[OF ct se(1)] ct_below_iff[OF ct se(2)]
  have "(x, 2) \<in> (edge_rel G)\<^sup>* \<longleftrightarrow> x = 2 \<or> x = 1 \<or> x = 0" for x by simp
  then show ?thesis by (auto simp: anc_def)
qed

subsection \<open>The reconstruction loop\<close>

lemma scaffold_graph_eq:
  "scaffold_graph a =
     \<lparr>nodes = [(0, Partial ''module'' False), (1, Partial ''function_definition'' False),
               (2, Full a)],
      edges = [((0, 1), ()), ((1, 2), ())]\<rparr>"
  by (simp add: scaffold_graph_def add_node_def empty_graph_def node_ids_def
      add_edge_undirected_def has_edge_def)

lemma scaffold_adjacent:
  "adjacent (scaffold_graph a) x y \<longleftrightarrow>
     (x = 0 \<and> y = 1) \<or> (x = 1 \<and> y = 2) \<or> (x = 1 \<and> y = 0) \<or> (x = 2 \<and> y = 1)"
  by (auto simp: scaffold_graph_eq adjacent_def edge_rel_def)

lemma recon_inv_base:
  assumes ct: "constituency_tree G" and sc: "python_scaffold G"
    and a: "node_attrs G 2 = Some a"
  shows "recon_inv G (scaffold_graph a) {2}"
proof -
  note se = scaffold_edges[OF ct sc]
  let ?T = "scaffold_graph a"
  have ids: "node_ids ?T = [0..<3]"
    by (simp add: scaffold_graph_eq node_ids_def upt_rec)
  have ta: "tree_adj (adjacent ?T) 3 (\<lambda>v. v - 1)"
    unfolding tree_adj_def scaffold_adjacent by (intro conjI allI impI) arith+
  have ed: "adjacent ?T x y" if "x \<in> {0, 1, 2}" "y \<in> {0, 1, 2}" "(x, y) \<in> edge_rel G" for x y
  proof -
    note e = ct_edge[OF ct that(3)]
    from that(2) e(3) consider "y = 1" | "y = 2" by auto
    then show ?thesis
    proof cases
      case 1
      with e(1) show ?thesis by (simp add: scaffold_adjacent)
    next
      case 2
      with ct_unique_parent[OF ct that(3), of 1] se(2) show ?thesis
        by (simp add: scaffold_adjacent)
    qed
  qed
  have cl: "x \<in> {0, 1, 2}" if "y \<in> {0, 1, 2}" "(x, y) \<in> edge_rel G" for x y
    using ct_edge(1)[OF ct that(2)] that(1) by auto
  have si: "struct_inv G ?T 3 id {0, 1, 2}"
    unfolding struct_inv_def
  proof (intro conjI)
    show "node_ids ?T = [0..<3]" by (rule ids)
    show "\<exists>par. tree_adj (adjacent ?T) 3 par" using ta by blast
    show "inj_on id {0, 1, 2::nat}" by simp
    show "id ` {0, 1, 2} \<subseteq> {..<3::nat}" by simp
    show "\<forall>x y. x \<in> {0, 1, 2} \<and> y \<in> {0, 1, 2} \<and> (x, y) \<in> edge_rel G
            \<longrightarrow> adjacent ?T (id x) (id y)"
      using ed by simp
    show "\<forall>y\<in>{0, 1, 2}. \<forall>x. (x, y) \<in> edge_rel G \<longrightarrow> x \<in> {0, 1, 2}"
      using cl by blast
  qed
  have at: "attr_inv G ?T id {2}"
    unfolding attr_inv_def using a by (simp add: scaffold_graph_eq)
  have n0: "\<not> terminal G 0" using ct_terminal[OF ct, of 0] by simp
  have n1: "\<not> terminal G 1" using ct_terminal[OF ct, of 1] se(2) by auto
  from sc have ty: "type_of G 0 = ''module''" "type_of G 1 = ''function_definition''"
    by (simp_all add: python_scaffold_def)
  have l0: "0 < length (nodes G)" and l1: "1 < length (nodes G)" using se(8) by linarith+
  have c0: "content G 0 = Partial ''module'' False"
    using content_nonterminal[OF ct l0 n0] ty(1) by simp
  have c1: "content G 1 = Partial ''function_definition'' False"
    using content_nonterminal[OF ct l1 n1] ty(2) by simp
  have c2: "content G 2 = Full a"
    using content_terminal[OF se(5)] a by simp
  have "mset_set {0, 1, 2::nat} = {#0, 1, 2#}" by simp
  then have ms: "mset (map snd (nodes ?T)) = image_mset (content G) (mset_set {0, 1, 2})"
    using c0 c1 c2 by (simp add: scaffold_graph_eq)
  show ?thesis
    unfolding recon_inv_def anc_root[OF ct sc] using si at ms by (intro conjI exI[of _ 3] exI[of _ id]) simp_all
qed

lemma recon_inv_step:
  assumes ct: "constituency_tree G" and sc: "python_scaffold G" and tf: "tree_facts G T"
    and ri: "recon_inv G T_ast S"
    and n: "terminal G n" "n \<noteq> 2"
    and Sn: "\<And>t. t \<in> S \<longleftrightarrow> terminal G t \<and> start_of G t < start_of G n"
  shows "\<exists>T'. reconstruct_step T 2 T_ast n = Inr T' \<and> recon_inv G T' (insert n S)"
proof -
  from ri obtain M f where inv: "struct_inv G T_ast M f (anc G S)"
    and fx: "f 0 = 0" "f 1 = 1" "f 2 = 2" and ai: "attr_inv G T_ast f S"
    and ms: "mset (map snd (nodes T_ast)) = image_mset (content G) (mset_set (anc G S))"
    unfolding recon_inv_def by blast
  let ?D = "down_part G (nearest G n) n"
  from reconstruct_step_inv[OF ct sc tf inv fx ai n Sn] obtain T' M' f' where
    rs: "reconstruct_step T 2 T_ast n = Inr T'"
    and si: "struct_inv G T' M' f' (anc G (insert n S))"
    and fx': "f' 0 = 0" "f' 1 = 1" "f' 2 = 2"
    and at: "attr_inv G T' f' (insert n S)"
    and nd: "map snd (nodes T') = map snd (nodes T_ast)
               @ map (\<lambda>x. Partial (type_of G x) False) ?D @ [Full (the (node_attrs G n))]"
    and an: "anc G (insert n S) = anc G S \<union> set (?D @ [n])"
    and dj: "set (?D @ [n]) \<inter> anc G S = {}"
    and di: "distinct (?D @ [n])"
    by blast
  note se = scaffold_edges[OF ct sc]
  note ih = nearest_is_head[OF ct se(4) n]
  note f = is_head_facts[OF ct n(1) ih]
  note dp = down_part_props[OF ct f(1)]
  have cD: "content G x = Partial (type_of G x) False" if "x \<in> set ?D" for x
  proof -
    from that have xn: "(x, n) \<in> (edge_rel G)\<^sup>+" unfolding dp(2) by simp
    then obtain z where z: "(x, z) \<in> edge_rel G" by (auto dest: tranclD)
    then have nt: "\<not> terminal G x" using ct_terminal[OF ct, of x] by auto
    from ct_trancl_less[OF ct xn] have "x < length (nodes G)" by simp
    from content_nonterminal[OF ct this nt] show ?thesis .
  qed
  have ch: "map (\<lambda>x. Partial (type_of G x) False) ?D @ [Full (the (node_attrs G n))]
              = map (content G) (?D @ [n])"
    using cD content_terminal[OF n(1)] by simp
  have fin: "finite (anc G S)"
    by (rule finite_subset[OF anc_bound[OF ct]]) (simp_all add: Sn)
  have "mset_set (anc G (insert n S)) = mset_set (anc G S) + mset_set (set (?D @ [n]))"
    unfolding an using dj by (intro mset_set_Union fin) auto
  also have "mset_set (set (?D @ [n])) = mset (?D @ [n])"
    by (rule mset_set_set[OF di])
  finally have "image_mset (content G) (mset_set (anc G (insert n S)))
                  = image_mset (content G) (mset_set (anc G S)) + mset (map (content G) (?D @ [n]))"
    by simp
  also have "\<dots> = mset (map snd (nodes T'))"
    unfolding nd ch ms[symmetric] by simp
  finally have ms': "mset (map snd (nodes T')) = image_mset (content G) (mset_set (anc G (insert n S)))"
    by simp
  have "recon_inv G T' (insert n S)"
    unfolding recon_inv_def using si fx' at ms' by blast
  with rs show ?thesis by blast
qed

lemma recon_inv_loop:
  assumes ct: "constituency_tree G" and sc: "python_scaffold G" and tf: "tree_facts G T"
  shows "recon_inv G T_ast S \<Longrightarrow> sorted_wrt (\<lambda>x y. start_of G x < start_of G y) ns \<Longrightarrow>
         (\<forall>n\<in>set ns. terminal G n \<and> n \<noteq> 2) \<Longrightarrow>
         (\<forall>t. terminal G t \<longrightarrow> (t \<in> S \<longleftrightarrow> t \<notin> set ns)) \<Longrightarrow>
         (\<forall>s\<in>S. terminal G s \<and> (\<forall>n\<in>set ns. start_of G s < start_of G n)) \<Longrightarrow>
         \<exists>T'. reconstruct_loop T 2 T_ast ns = Inr T' \<and> recon_inv G T' (S \<union> set ns)"
proof (induction ns arbitrary: T_ast S)
  case Nil
  then show ?case by simp
next
  case (Cons n ns)
  from Cons.prems(3) have n: "terminal G n" "n \<noteq> 2" by simp_all
  from Cons.prems(2) have lt: "\<And>m. m \<in> set ns \<Longrightarrow> start_of G n < start_of G m"
    and so: "sorted_wrt (\<lambda>x y. start_of G x < start_of G y) ns" by simp_all
  have nn: "n \<notin> set ns" using lt by force
  have Sn: "t \<in> S \<longleftrightarrow> terminal G t \<and> start_of G t < start_of G n" for t
  proof
    assume "t \<in> S"
    with Cons.prems(5) show "terminal G t \<and> start_of G t < start_of G n" by simp
  next
    assume t: "terminal G t \<and> start_of G t < start_of G n"
    show "t \<in> S"
    proof (rule ccontr)
      assume "t \<notin> S"
      with Cons.prems(4) t have "t \<in> set (n # ns)" by blast
      with t lt show False by force
    qed
  qed
  from recon_inv_step[OF ct sc tf Cons.prems(1) n Sn] obtain T1 where
    rs: "reconstruct_step T 2 T_ast n = Inr T1" and ri: "recon_inv G T1 (insert n S)" by blast
  have p3: "\<forall>m\<in>set ns. terminal G m \<and> m \<noteq> 2" using Cons.prems(3) by simp
  have p4: "\<forall>t. terminal G t \<longrightarrow> (t \<in> insert n S \<longleftrightarrow> t \<notin> set ns)"
    using Cons.prems(4) nn by auto
  have p5: "\<forall>s\<in>insert n S. terminal G s \<and> (\<forall>m\<in>set ns. start_of G s < start_of G m)"
    using Cons.prems(5) n(1) lt by simp
  from Cons.IH[OF ri so p3 p4 p5] obtain T' where
    "reconstruct_loop T 2 T1 ns = Inr T'" "recon_inv G T' (insert n S \<union> set ns)" by blast
  with rs show ?case by simp
qed

subsection \<open>The whole round trip\<close>

lemma pipeline_labelled:
  "labelled_tree G = Some (Inr T) \<Longrightarrow> pipeline G = Some (from_label_dep_tree_to_ast T ''python'')"
  by (auto simp: pipeline_def labelled_tree_def split: option.splits sum.splits)

lemma insertion_order:
  assumes ct: "constituency_tree G" and sc: "python_scaffold G"
    and nT: "nodes T = filter (\<lambda>(n, a). is_terminal a) (nodes G)"
  defines "ns \<equiv> map fst (sort_key (\<lambda>(n, a). start a) (filter (\<lambda>(n, a). n \<noteq> 2) (nodes T)))"
  shows "set ns = {t. terminal G t \<and> t \<noteq> 2}"
    and "sorted_wrt (\<lambda>x y. start_of G x < start_of G y) ns"
proof -
  let ?key = "\<lambda>(n, a). start a"
  define L where "L = filter (\<lambda>(n, a). n \<noteq> 2) (nodes T)"
  note d = ct_distinct_ids[OF ct]
  have ns: "ns = map fst (sort_key ?key L)" by (simp add: ns_def L_def)
  have L: "node_attrs G (fst na) = Some (snd na) \<and> is_terminal (snd na) \<and> fst na \<noteq> 2"
    if "na \<in> set L" for na
    using that node_attrs_Some[OF d, of "fst na" "snd na"] by (auto simp: L_def nT)
  show set_ns: "set ns = {t. terminal G t \<and> t \<noteq> 2}"
  proof (intro set_eqI iffI)
    fix t assume "t \<in> set ns"
    then obtain na where "na \<in> set L" "t = fst na" by (auto simp: ns)
    with L[OF this(1)] show "t \<in> {t. terminal G t \<and> t \<noteq> 2}" by (simp add: terminal_def)
  next
    fix t assume "t \<in> {t. terminal G t \<and> t \<noteq> 2}"
    then obtain a where a: "node_attrs G t = Some a" "is_terminal a" and t: "t \<noteq> 2"
      by (auto simp: terminal_def split: option.splits)
    from a(1) have "(t, a) \<in> set (nodes G)" by (auto simp: node_attrs_def dest: map_of_SomeD)
    with a(2) t have "(t, a) \<in> set L" by (simp add: L_def nT)
    then show "t \<in> set ns" by (force simp: ns)
  qed
  have "map (start_of G) ns = map ?key (sort_key ?key L)"
  proof -
    have "start_of G (fst na) = ?key na" if "na \<in> set (sort_key ?key L)" for na
    proof -
      from that have "na \<in> set L" by simp
      from L[OF this] show ?thesis by (simp add: start_of_def case_prod_beta)
    qed
    then show ?thesis by (simp add: ns)
  qed
  then have so: "sorted (map (start_of G) ns)" by simp
  have "distinct (map fst (nodes G))" using d by (simp add: node_ids_def)
  then have "distinct (map fst L)" unfolding L_def nT by (intro distinct_map_filter)
  moreover have "mset ns = mset (map fst L)" by (simp add: ns)
  ultimately have dn: "distinct ns" using mset_eq_imp_distinct_iff by blast
  have "inj_on (start_of G) (set ns)"
    unfolding set_ns by (rule inj_onI) (auto intro: ct_start_inj[OF ct])
  with dn have "distinct (map (start_of G) ns)" by (simp add: distinct_map)
  with so have "sorted_wrt (<) (map (start_of G) ns)" by (simp add: strict_sorted_iff)
  then show "sorted_wrt (\<lambda>x y. start_of G x < start_of G y) ns" by (simp add: sorted_wrt_map)
qed

lemma reconstruct_nodes:
  assumes ct: "constituency_tree G" and sc: "python_scaffold G"
  shows "\<exists>T_ast. pipeline G = Some (Inr T_ast)
           \<and> mset (map snd (nodes T_ast)) = mset (map embed (map snd (nodes G)))"
proof -
  note se = scaffold_edges[OF ct sc]
  note d = ct_distinct_ids[OF ct]
  have "2 \<in> set (terminals G)" using set_terminals[OF d] se(5) by simp
  then have ne: "terminals G \<noteq> []" by auto
  from labelled_tree_full[OF ct ne] se(4) obtain T where
    lt: "labelled_tree G = Some (Inr T)" and tf: "tree_facts G T"
    unfolding tree_facts_def by auto
  from tf have nT: "nodes T = filter (\<lambda>(n, a). is_terminal a) (nodes G)"
    by (simp add: tree_facts_def)
  have gr: "getRoot T = Inr 2" using se(4) by (simp add: getRoot_def nT)
  from tree_facts_attr[OF tf se(5)] obtain a where
    a: "node_attrs G 2 = Some a" "attr_of T 2 = Inr a" by blast
  define ns where "ns = map fst (sort_key (\<lambda>(n, a). start a) (filter (\<lambda>(n, a). n \<noteq> 2) (nodes T)))"
  note io = insertion_order[OF ct sc nT, folded ns_def]
  have fl: "from_label_dep_tree_to_ast T ''python'' = reconstruct_loop T 2 (scaffold_graph a) ns"
    by (simp add: from_label_dep_tree_to_ast_def gr a(2) Let_def scaffold_graph_def ns_def)
  have p3: "\<forall>n\<in>set ns. terminal G n \<and> n \<noteq> 2" using io(1) by simp
  have p4: "\<forall>t. terminal G t \<longrightarrow> (t \<in> {2} \<longleftrightarrow> t \<notin> set ns)" using io(1) by simp
  have p5: "\<forall>s\<in>{2}. terminal G s \<and> (\<forall>n\<in>set ns. start_of G s < start_of G n)"
    using se(5) ct_root_less[OF ct se(4)] io(1) by simp
  from recon_inv_loop[OF ct sc tf recon_inv_base[OF ct sc a(1)] io(2) p3 p4 p5] obtain T' where
    rl: "reconstruct_loop T 2 (scaffold_graph a) ns = Inr T'"
    and ri: "recon_inv G T' ({2} \<union> set ns)" by blast
  have "{2} \<union> set ns = {t. terminal G t}" using io(1) se(5) by auto
  with ri have "mset (map snd (nodes T')) = image_mset (content G) (mset_set (anc G {t. terminal G t}))"
    by (simp add: recon_inv_def)
  also have "anc G {t. terminal G t} = {0..<length (nodes G)}"
    unfolding anc_all[OF ct sc] by (simp add: atLeast0LessThan)
  also have "image_mset (content G) (mset_set {0..<length (nodes G)})
               = mset (map (content G) [0..<length (nodes G)])"
    by (simp add: mset_upt)
  also have "\<dots> = mset (map embed (map snd (nodes G)))"
    unfolding nodes_content[OF ct] ..
  finally have "mset (map snd (nodes T')) = mset (map embed (map snd (nodes G)))" .
  with pipeline_labelled[OF lt] fl rl show ?thesis by simp
qed

lemma terminal_starts_distinct:
  assumes ct: "constituency_tree G"
  shows "distinct (map start (filter is_terminal (map snd (nodes G))))"
proof -
  let ?L = "filter (\<lambda>(n, a). is_terminal a) (nodes G)"
  have "map (start_of G) (terminals G) = map (\<lambda>(n, a). start a) ?L"
  proof -
    have "start_of G (fst na) = start (snd na)" if "na \<in> set ?L" for na
      using that node_attrs_Some[OF ct_distinct_ids[OF ct], of "fst na" "snd na"]
      by (auto simp: start_of_def)
    then show ?thesis by (simp add: terminals_def case_prod_beta)
  qed
  also have "map (\<lambda>(n, a). start a) (filter (\<lambda>(n, a). is_terminal a) xs)
               = map start (filter is_terminal (map snd xs))" for xs :: "(nat \<times> attrs) list"
    by (induction xs) auto
  finally show ?thesis using ct by (simp add: constituency_tree_def)
qed

text \<open>
  C1, amended.  Take a well-formed constituency tree that matches the scaffold the
  reconstruction hard-codes: node 0 is \<open>module\<close>, its only child is node 1,
  \<open>function_definition\<close>, and the leftmost terminal is node 2, a child of node 1.  For
  any number of terminals, enriching the tree with its dependencies, projecting, labelling
  and reconstructing returns a tree whose terminals, ordered by \<open>start\<close>, are the
  terminals of the original tree in that order, and whose non-terminal type names form the
  same multiset as those of the original tree.
\<close>

theorem round_trip:
  assumes ct: "constituency_tree G" and sc: "python_scaffold G"
  shows "\<exists>T_ast. pipeline G = Some (Inr T_ast)
           \<and> ast_terminal_sequence T_ast = terminal_sequence G
           \<and> mset (ast_nonterminal_types T_ast) = mset (nonterminal_types G)"
proof -
  from reconstruct_nodes[OF ct sc] obtain T_ast where
    p: "pipeline G = Some (Inr T_ast)"
    and m: "mset (map snd (nodes T_ast)) = mset (map embed (map snd (nodes G)))" by blast
  have "mset (concat (map dict_terminal (map snd (nodes T_ast))))
          = mset (filter is_terminal (map snd (nodes G)))"
    using mset_concat_map_cong[OF m, of dict_terminal] unfolding dict_terminal_embed .
  from sort_key_mset_cong[OF this terminal_starts_distinct[OF ct]]
  have ts: "ast_terminal_sequence T_ast = terminal_sequence G"
    by (simp add: ast_terminal_sequence_def terminal_sequence_def)
  have nt: "mset (ast_nonterminal_types T_ast) = mset (nonterminal_types G)"
    using mset_concat_map_cong[OF m, of dict_nonterminal]
    unfolding dict_nonterminal_embed ast_nonterminal_types_def nonterminal_types_def .
  from p ts nt show ?thesis by blast
qed

text \<open>
  C1, as stated, fails.  The tree \<open>module \<rightarrow> function_definition \<rightarrow> [X \<rightarrow> [a], b, c]\<close> is
  well formed, starts with the \<open>module \<rightarrow> function_definition\<close> scaffold and has three
  terminals, but its leftmost terminal \<open>a\<close> lies below \<open>X\<close>.  The reconstruction starts from
  the fixed nodes 0, 1 and 2 with the leftmost terminal directly below
  \<open>function_definition\<close>; the labels of the edges leaving \<open>a\<close> have index 0, so each
  dependent is grafted on node 1 below a fresh copy of \<open>non_terminals[1:]\<close>, which is
  \<open>function_definition\<close>.  The result has four non-terminals and has lost \<open>X\<close>.
\<close>

theorem round_trip_counterexample:
  "constituency_tree nested_first_graph
   \<and> type_of nested_first_graph 0 = ''module''
   \<and> type_of nested_first_graph 1 = ''function_definition''
   \<and> successors nested_first_graph 0 = [1]
   \<and> length (terminals nested_first_graph) = 3
   \<and> (\<exists>T_ast. pipeline nested_first_graph = Some (Inr T_ast)
         \<and> nonterminal_types nested_first_graph = [''module'', ''function_definition'', ''X'']
         \<and> ast_nonterminal_types T_ast
              = [''module'', ''function_definition'', ''function_definition'',
                 ''function_definition'']
         \<and> mset (ast_nonterminal_types T_ast) \<noteq> mset (nonterminal_types nested_first_graph))"
proof -
  have ev: "constituency_tree nested_first_graph
    \<and> type_of nested_first_graph 0 = ''module''
    \<and> type_of nested_first_graph 1 = ''function_definition''
    \<and> successors nested_first_graph 0 = [1]
    \<and> length (terminals nested_first_graph) = 3
    \<and> nonterminal_types nested_first_graph = [''module'', ''function_definition'', ''X'']
    \<and> map_option (map_sum id ast_nonterminal_types) (pipeline nested_first_graph)
        = Some (Inr [''module'', ''function_definition'', ''function_definition'',
                     ''function_definition''])"
    by code_simp
  then obtain r where r: "pipeline nested_first_graph = Some r"
    "map_sum id ast_nonterminal_types r
       = Inr [''module'', ''function_definition'', ''function_definition'',
              ''function_definition'']"
    by auto
  then obtain T_ast where T: "r = Inr T_ast"
    "ast_nonterminal_types T_ast
       = [''module'', ''function_definition'', ''function_definition'', ''function_definition'']"
    by (cases r) auto
  have "mset (ast_nonterminal_types T_ast) \<noteq> mset (nonterminal_types nested_first_graph)"
  proof
    assume "mset (ast_nonterminal_types T_ast) = mset (nonterminal_types nested_first_graph)"
    from mset_eq_length[OF this] T(2) ev show False by simp
  qed
  with ev r(1) T show ?thesis by blast
qed

theorem round_trip_witness:
  "\<exists>T_ast. pipeline example_graph = Some (Inr T_ast)
     \<and> ast_terminal_sequence T_ast = terminal_sequence example_graph
     \<and> mset (ast_nonterminal_types T_ast) = mset (nonterminal_types example_graph)"
proof -
  have "python_scaffold example_graph" by code_simp
  from round_trip[OF example_graph_ct this] show ?thesis .
qed

end
